theory Spec2Isabelle
  imports Main
begin

section \<open>Data model of \<open>lib/redis/redisconnection.cpp\<close>\<close>

text \<open>
  The file implements a pipelined Redis connection: two coroutines on one strand
  (\<open>WriteLoop\<close>, \<open>ReadLoop\<close>) share the queue \<open>m_Queues.FutureResponseActions\<close>.
  The declarations of \<open>redisconnection.hpp\<close> are not part of the sources at hand;
  their shape is read off the uses in the \<open>.cpp\<close> file.
\<close>

type_synonym Query = "string list"

text \<open>Modelled from the spec: the reply type of the RESP decoder (declared in the header).\<close>

datatype Reply =
    SimpleStringReply string
  | ErrorReply string
  | IntegerReply int
  | BulkStringReply string
  | NilReply
  | ArrayReply "Reply list"

text \<open>
  Exceptions. \<open>forced_unwind\<close> is \<open>boost::coroutines::detail::forced_unwind\<close>, which is
  not derived from \<open>std::exception\<close>; \<open>std_exception w\<close> is any exception derived from
  \<open>std::exception\<close> with \<open>what() = w\<close>; \<open>non_std_exception\<close> is anything else, caught
  only by \<open>catch (...)\<close>.
\<close>

datatype exn = forced_unwind | std_exception string | non_std_exception

text \<open>
  A \<open>std::promise\<close> is a handle on a shared state that is written at most once:
  \<open>set_value\<close> and \<open>set_exception\<close> on a state that already holds a result throw
  \<open>std::future_error\<close> (\<open>promise_already_satisfied\<close>), which derives from
  \<open>std::exception\<close>. Promises are handles (numbers) into a store of shared states.
\<close>

datatype 'a shared_state = Pending | HasValue 'a | HasException exn

type_synonym promise = nat

definition promise_already_satisfied :: exn where
  "promise_already_satisfied = std_exception ''std::future_error: Promise already satisfied''"

text \<open>
  A \<open>std::promise\<close> that is destroyed while its shared state holds no result stores
  \<open>std::future_error\<close> (\<open>broken_promise\<close>) in it, and the waiting caller gets that
  exception. A promise that has been moved from no longer owns a state.
\<close>

definition broken_promise :: exn where
  "broken_promise = std_exception ''std::future_error: Broken promise''"

datatype ResponseAction = Ignore | Deliver | DeliverBulk

text \<open>
  \<open>Amount\<close> is initialised from \<open>item.size()\<close> in a braced initialiser, so it is at
  least as wide as \<open>size_t\<close>; it counts replies that are still outstanding on the
  socket and is modelled as an unbounded natural number (a counter of \<open>2^64\<close>
  outstanding replies, where the machine integer would wrap, is not modelled).
\<close>

record FutureResponseAction =
  Amount :: nat
  Action :: ResponseAction

text \<open>
  \<open>WriteQueueItem\<close> is a struct of four shared pointers, built by the submission
  functions with exactly one of them non-null; \<open>None\<close> is \<open>nullptr\<close>.
\<close>

record WriteQueueItem =
  ItemFireAndForgetQuery :: "Query option"
  ItemFireAndForgetQueries :: "Query list option"
  ItemGetResultOfQuery :: "(Query \<times> promise) option"
  ItemGetResultsOfQueries :: "(Query list \<times> promise) option"

datatype LogSeverity = LogNotice | LogInformation | LogCritical

type_synonym LogEntry = "LogSeverity \<times> string \<times> string"

datatype coroutine = ReadLoopCoroutine | WriteLoopCoroutine | ConnectCoroutine

text \<open>
  Program counters of the two loops. A coroutine is suspended either in \<open>Wait\<close> or
  between two statements of its loop; the counters of the \<open>for\<close> loops and the
  locals \<open>promise\<close> and \<open>replies\<close> are part of the counter. \<open>ReadExited ex\<close>: the
  exception \<open>ex\<close> has left the coroutine. \<open>ReadUndefined\<close>: \<open>front()\<close> was called on
  an empty queue.
\<close>

datatype reader_pc =
    ReadWaiting
  | ReadAtWhile
  | IgnoreFor nat
  | DeliverFor nat
  | DeliverReadOne nat promise
  | DeliverBulkFor nat promise "Reply list"
  | ReadExited exn
  | ReadUndefined

datatype writer_pc = WriteWaiting | WriteAtWhile | WriteExited exn

text \<open>
  The connection object (\<open>m_Host\<close> \<dots> \<open>m_QueuedReads\<close>, with \<open>m_Queues.X\<close> as \<open>X\<close>;
  \<open>m_Password\<close> and \<open>m_DbIndex\<close> are only stored by this file and left out; of
  \<open>m_TcpConn\<close> and \<open>m_UnixConn\<close> the model keeps whether they are set),
  followed by what the code acts on outside the object: the coroutines handed to
  \<open>asio::spawn\<close>, the log, the shared states of the promises, the number of calls made
  to the transport so far, the queries that reached the socket, and the two program
  counters.
\<close>

record RedisConnection =
  Host :: string
  Port :: int
  Path :: string
  Connecting :: bool
  Connected :: bool
  Started :: bool
  TcpConn :: bool
  UnixConn :: bool
  Writes :: "WriteQueueItem list"
  FutureResponseActions :: "FutureResponseAction list"
  ReplyPromises :: "promise list"
  RepliesPromises :: "promise list"
  QueuedWrites :: bool
  QueuedReads :: bool
  Spawned :: "coroutine list"
  LogOutput :: "LogEntry list"
  ReplyStates :: "promise \<Rightarrow> Reply shared_state"
  RepliesStates :: "promise \<Rightarrow> Reply list shared_state"
  PromisesMade :: nat
  ConnectCalls :: nat
  WriteCalls :: nat
  ReadCalls :: nat
  Sent :: "Query list"
  ReadLoop_pc :: reader_pc
  WriteLoop_pc :: writer_pc

text \<open>
  The transport is outside the program: the outcome of the \<open>k\<close>-th connect attempt,
  of the \<open>k\<close>-th call of \<open>WriteOne\<close> and of the \<open>k\<close>-th call of \<open>ReadOne\<close> is given by
  an arbitrary function, over which every theorem quantifies.
\<close>

record io =
  connect_result :: "nat \<Rightarrow> exn option"
  write_result :: "nat \<Rightarrow> exn option"
  read_result :: "nat \<Rightarrow> exn + Reply"

definition RedisConnection_new :: "string \<Rightarrow> int \<Rightarrow> string \<Rightarrow> RedisConnection" where
  "RedisConnection_new host port path =
     \<lparr> Host = host, Port = port, Path = path,
       Connecting = False, Connected = False, Started = False,
       TcpConn = False, UnixConn = False,
       Writes = [], FutureResponseActions = [], ReplyPromises = [], RepliesPromises = [],
       QueuedWrites = False, QueuedReads = False,
       Spawned = [], LogOutput = [],
       ReplyStates = (\<lambda>p. Pending), RepliesStates = (\<lambda>p. Pending), PromisesMade = 0,
       ConnectCalls = 0, WriteCalls = 0, ReadCalls = 0, Sent = [],
       ReadLoop_pc = ReadWaiting, WriteLoop_pc = WriteWaiting \<rparr>"


section \<open>Logging\<close>

definition Log :: "LogSeverity \<Rightarrow> string \<Rightarrow> string \<Rightarrow> RedisConnection \<Rightarrow> RedisConnection" where
  "Log severity facility message s = s\<lparr>LogOutput := LogOutput s @ [(severity, facility, message)]\<rparr>"

text \<open>\<open>LogQuery\<close> appends at most seven quoted arguments; the eighth is replaced by an ellipsis.\<close>

fun LogQuery_for :: "nat \<Rightarrow> Query \<Rightarrow> string" where
  "LogQuery_for i [] = []"
| "LogQuery_for i (arg # args) =
     (if Suc i = 8 then '' ...''
      else '' '' @ [CHR 0x27] @ arg @ [CHR 0x27] @ LogQuery_for (Suc i) args)"

definition LogQuery :: "Query \<Rightarrow> string" where
  "LogQuery query = LogQuery_for 0 query"

text \<open>The decimal text of an \<open>int\<close>, as \<open>operator<<\<close> writes it.\<close>

function digits :: "int \<Rightarrow> string" where
  "digits i = (if i < 10 then [''0123456789'' ! nat i]
               else digits (i div 10) @ [''0123456789'' ! nat (i mod 10)])"
  by pat_completeness auto
termination
  by (relation "measure nat") auto

definition ToString :: "int \<Rightarrow> string" where
  "ToString i = (if i < 0 then CHR ''-'' # digits (- i) else digits i)"

section \<open>Promises and the transport\<close>

definition Reply_set_value :: "promise \<Rightarrow> Reply \<Rightarrow> RedisConnection \<Rightarrow> exn + RedisConnection" where
  "Reply_set_value p v s =
     (if ReplyStates s p = Pending then Inr (s\<lparr>ReplyStates := (ReplyStates s)(p := HasValue v)\<rparr>)
      else Inl promise_already_satisfied)"

definition Reply_set_exception :: "promise \<Rightarrow> exn \<Rightarrow> RedisConnection \<Rightarrow> exn + RedisConnection" where
  "Reply_set_exception p ex s =
     (if ReplyStates s p = Pending then Inr (s\<lparr>ReplyStates := (ReplyStates s)(p := HasException ex)\<rparr>)
      else Inl promise_already_satisfied)"

definition Replies_set_value :: "promise \<Rightarrow> Reply list \<Rightarrow> RedisConnection \<Rightarrow> exn + RedisConnection" where
  "Replies_set_value p v s =
     (if RepliesStates s p = Pending then Inr (s\<lparr>RepliesStates := (RepliesStates s)(p := HasValue v)\<rparr>)
      else Inl promise_already_satisfied)"

definition Replies_set_exception :: "promise \<Rightarrow> exn \<Rightarrow> RedisConnection \<Rightarrow> exn + RedisConnection" where
  "Replies_set_exception p ex s =
     (if RepliesStates s p = Pending then Inr (s\<lparr>RepliesStates := (RepliesStates s)(p := HasException ex)\<rparr>)
      else Inl promise_already_satisfied)"

text \<open>The destructor of a promise that still owns its shared state.\<close>

definition Reply_promise_destroy :: "promise \<Rightarrow> RedisConnection \<Rightarrow> RedisConnection" where
  "Reply_promise_destroy p s =
     (if ReplyStates s p = Pending
      then s\<lparr>ReplyStates := (ReplyStates s)(p := HasException broken_promise)\<rparr>
      else s)"

definition Replies_promise_destroy :: "promise \<Rightarrow> RedisConnection \<Rightarrow> RedisConnection" where
  "Replies_promise_destroy p s =
     (if RepliesStates s p = Pending
      then s\<lparr>RepliesStates := (RepliesStates s)(p := HasException broken_promise)\<rparr>
      else s)"

text \<open>
  \<open>future.wait(); return future.get()\<close>: \<open>None\<close> while the caller is still blocked,
  afterwards the value returned or the exception rethrown to the caller.
\<close>

definition future_get :: "'a shared_state \<Rightarrow> (exn + 'a) option" where
  "future_get st = (case st of Pending \<Rightarrow> None | HasValue v \<Rightarrow> Some (Inr v) | HasException ex \<Rightarrow> Some (Inl ex))"

text \<open>
  \<open>WriteOne(query, yc)\<close> and \<open>ReadOne(yc)\<close> hand over to the stream templates of the
  header on \<open>m_TcpConn\<close> or \<open>m_UnixConn\<close>; either way the outcome is the transport's.
\<close>

definition WriteOne :: "io \<Rightarrow> Query \<Rightarrow> RedisConnection \<Rightarrow> exn option \<times> RedisConnection" where
  "WriteOne io query s =
     (case write_result io (WriteCalls s) of
        None \<Rightarrow> (None, s\<lparr>WriteCalls := Suc (WriteCalls s), Sent := Sent s @ [query]\<rparr>)
      | Some ex \<Rightarrow> (Some ex, s\<lparr>WriteCalls := Suc (WriteCalls s)\<rparr>))"

definition ReadOne :: "io \<Rightarrow> RedisConnection \<Rightarrow> (exn + Reply) \<times> RedisConnection" where
  "ReadOne io s = (read_result io (ReadCalls s), s\<lparr>ReadCalls := Suc (ReadCalls s)\<rparr>)"

section \<open>Start and Connect\<close>

definition Start :: "RedisConnection \<Rightarrow> RedisConnection" where
  "Start s =
     (let s1 = (if \<not> Started s
                then s\<lparr>Started := True, Spawned := Spawned s @ [ReadLoopCoroutine, WriteLoopCoroutine]\<rparr>
                else s\<lparr>Started := True\<rparr>)
      in if \<not> Connecting s1
         then s1\<lparr>Connecting := True, Spawned := Spawned s1 @ [ConnectCoroutine]\<rparr>
         else s1\<lparr>Connecting := True\<rparr>)"

definition IsConnected :: "RedisConnection \<Rightarrow> bool" where
  "IsConnected s = Connected s"

text \<open>
  \<open>Connect\<close> returns the exception that leaves it, if any. The \<open>Defer\<close> at its top
  runs on every exit: the last update below.
\<close>

definition Connect :: "io \<Rightarrow> RedisConnection \<Rightarrow> exn option \<times> RedisConnection" where
  "Connect io s =
     (let s1 = Log LogInformation ''RedisWriter'' ''Trying to connect to Redis server (async)'' s;
          s2 = s1\<lparr>ConnectCalls := Suc (ConnectCalls s1)\<rparr>;
          (thrown, s3) =
            (case connect_result io (ConnectCalls s1) of
               None \<Rightarrow>
                 (None, Log LogInformation ''RedisWriter'' ''Connected to Redis server''
                   ((if Path s2 = [] then s2\<lparr>TcpConn := True\<rparr> else s2\<lparr>UnixConn := True\<rparr>)
                      \<lparr>Connected := True\<rparr>))
             | Some forced_unwind \<Rightarrow> (Some forced_unwind, s2)
             | Some (std_exception w) \<Rightarrow>
                 (None, Log LogCritical ''RedisWriter''
                   (''Cannot connect to '' @ Host s2 @ '':'' @ ToString (Port s2) @ '': '' @ w) s2)
             | Some non_std_exception \<Rightarrow> (Some non_std_exception, s2))
      in (thrown, s3\<lparr>Connecting := Connected s3\<rparr>))"

section \<open>The submission functions\<close>

text \<open>
  Each function logs and posts a handler that appends the item to \<open>m_Queues.Writes\<close>
  and sets \<open>m_QueuedWrites\<close>; the model runs the handler at once. The two awaiting
  functions create a promise with a fresh shared state and return its handle; what the
  blocked caller finally gets is \<open>future_get\<close> of that state.
\<close>

definition FireAndForgetQuery :: "Query \<Rightarrow> RedisConnection \<Rightarrow> RedisConnection" where
  "FireAndForgetQuery query s =
     (let s1 = Log LogNotice ''RedisWriter'' (''Firing and forgetting query:'' @ LogQuery query) s;
          item = \<lparr>ItemFireAndForgetQuery = Some query, ItemFireAndForgetQueries = None,
                  ItemGetResultOfQuery = None, ItemGetResultsOfQueries = None\<rparr>
      in s1\<lparr>Writes := Writes s1 @ [item], QueuedWrites := True\<rparr>)"

definition FireAndForgetQueries :: "Query list \<Rightarrow> RedisConnection \<Rightarrow> RedisConnection" where
  "FireAndForgetQueries queries s =
     (let s1 = foldl (\<lambda>t query. Log LogNotice ''RedisWriter''
                        (''Firing and forgetting query:'' @ LogQuery query) t) s queries;
          item = \<lparr>ItemFireAndForgetQuery = None, ItemFireAndForgetQueries = Some queries,
                  ItemGetResultOfQuery = None, ItemGetResultsOfQueries = None\<rparr>
      in s1\<lparr>Writes := Writes s1 @ [item], QueuedWrites := True\<rparr>)"

definition GetResultOfQuery :: "Query \<Rightarrow> RedisConnection \<Rightarrow> promise \<times> RedisConnection" where
  "GetResultOfQuery query s =
     (let s1 = Log LogNotice ''RedisWriter'' (''Executing query:'' @ LogQuery query) s;
          p = PromisesMade s1;
          s2 = s1\<lparr>PromisesMade := Suc p, ReplyStates := (ReplyStates s1)(p := Pending)\<rparr>;
          item = \<lparr>ItemFireAndForgetQuery = None, ItemFireAndForgetQueries = None,
                  ItemGetResultOfQuery = Some (query, p), ItemGetResultsOfQueries = None\<rparr>
      in (p, s2\<lparr>Writes := Writes s2 @ [item], QueuedWrites := True\<rparr>))"

definition GetResultsOfQueries :: "Query list \<Rightarrow> RedisConnection \<Rightarrow> promise \<times> RedisConnection" where
  "GetResultsOfQueries queries s =
     (let s1 = foldl (\<lambda>t query. Log LogNotice ''RedisWriter''
                        (''Executing query:'' @ LogQuery query) t) s queries;
          p = PromisesMade s1;
          s2 = s1\<lparr>PromisesMade := Suc p, RepliesStates := (RepliesStates s1)(p := Pending)\<rparr>;
          item = \<lparr>ItemFireAndForgetQuery = None, ItemFireAndForgetQueries = None,
                  ItemGetResultOfQuery = None, ItemGetResultsOfQueries = Some (queries, p)\<rparr>
      in (p, s2\<lparr>Writes := Writes s2 @ [item], QueuedWrites := True\<rparr>))"


section \<open>WriteLoop\<close>

text \<open>
  How one of the four \<open>if\<close> blocks of the loop body ends: control falls through
  to the next block, a \<open>continue\<close> goes on with the next queue item, or an exception
  leaves the loop.
\<close>

datatype flow = Next | Continue | Throw exn

text \<open>
  The bookkeeping written three times in the loop:
  \<open>if (empty() || back().Action != a) emplace({n, a}); else back().Amount += n;\<close>
\<close>

definition record_action ::
  "nat \<Rightarrow> ResponseAction \<Rightarrow> FutureResponseAction list \<Rightarrow> FutureResponseAction list" where
  "record_action n a fas =
     (if fas = [] \<or> Action (last fas) \<noteq> a then fas @ [\<lparr>Amount = n, Action = a\<rparr>]
      else butlast fas @ [(last fas)\<lparr>Amount := Amount (last fas) + n\<rparr>])"

text \<open>
  \<open>for (auto& query : item) { WriteOne(query, yc); ++i; }\<close> started with counter \<open>i\<close>:
  the exception that ended the loop, if any, and the final counter. (The loop of the
  fourth block has no counter; there the counter returned is not used.)
\<close>

fun WriteAll :: "io \<Rightarrow> Query list \<Rightarrow> nat \<Rightarrow> RedisConnection \<Rightarrow> exn option \<times> nat \<times> RedisConnection" where
  "WriteAll io [] i s = (None, i, s)"
| "WriteAll io (query # queries) i s =
     (case WriteOne io query s of
        (Some ex, s1) \<Rightarrow> (Some ex, i, s1)
      | (None, s1) \<Rightarrow> WriteAll io queries (Suc i) s1)"

text \<open>
  \<open>next\<close> is a local of the loop body and, the caller having dropped its own pointer
  (\<open>item = nullptr\<close>), the last owner of the item: a \<open>continue\<close> or an exception that
  leaves the body destroys the item with the promises it still holds. In the first
  three blocks these are the promises of \<open>GetResultOfQuery\<close> and of
  \<open>GetResultsOfQueries\<close>; when the fourth block is reached the former has been moved
  into \<open>ReplyPromises\<close>. A promise that already holds the exception set by the handler
  is not changed by its destruction.
\<close>

definition destroy_next :: "WriteQueueItem \<Rightarrow> RedisConnection \<Rightarrow> RedisConnection" where
  "destroy_next next s =
     (let s1 = (case ItemGetResultOfQuery next of
                  None \<Rightarrow> s
                | Some item \<Rightarrow> Reply_promise_destroy (snd item) s)
      in case ItemGetResultsOfQueries next of
           None \<Rightarrow> s1
         | Some item \<Rightarrow> Replies_promise_destroy (snd item) s1)"

definition WriteLoop_FireAndForgetQuery :: "io \<Rightarrow> WriteQueueItem \<Rightarrow> RedisConnection \<Rightarrow> flow \<times> RedisConnection" where
  "WriteLoop_FireAndForgetQuery io next s =
     (case ItemFireAndForgetQuery next of
        None \<Rightarrow> (Next, s)
      | Some item \<Rightarrow>
          (case WriteOne io item s of
             (Some forced_unwind, s1) \<Rightarrow> (Throw forced_unwind, destroy_next next s1)
           | (Some (std_exception w), s1) \<Rightarrow>
               (Continue, destroy_next next (Log LogCritical ''RedisWriter''
                  (''Error during sending query'' @ LogQuery item
                     @ '' which has been fired and forgotten: '' @ w) s1))
           | (Some non_std_exception, s1) \<Rightarrow>
               (Continue, destroy_next next (Log LogCritical ''RedisWriter''
                  (''Error during sending query'' @ LogQuery item
                     @ '' which has been fired and forgotten'') s1))
           | (None, s1) \<Rightarrow>
               (Next, s1\<lparr>FutureResponseActions := record_action 1 Ignore (FutureResponseActions s1),
                         QueuedReads := True\<rparr>)))"

definition WriteLoop_FireAndForgetQueries :: "io \<Rightarrow> WriteQueueItem \<Rightarrow> RedisConnection \<Rightarrow> flow \<times> RedisConnection" where
  "WriteLoop_FireAndForgetQueries io next s =
     (case ItemFireAndForgetQueries next of
        None \<Rightarrow> (Next, s)
      | Some item \<Rightarrow>
          (case WriteAll io item 0 s of
             (Some forced_unwind, i, s1) \<Rightarrow> (Throw forced_unwind, destroy_next next s1)
           | (Some (std_exception w), i, s1) \<Rightarrow>
               (Continue, destroy_next next (Log LogCritical ''RedisWriter''
                  (''Error during sending query'' @ LogQuery (item ! i)
                     @ '' which has been fired and forgotten: '' @ w) s1))
           | (Some non_std_exception, i, s1) \<Rightarrow>
               (Continue, destroy_next next (Log LogCritical ''RedisWriter''
                  (''Error during sending query'' @ LogQuery (item ! i)
                     @ '' which has been fired and forgotten'') s1))
           | (None, i, s1) \<Rightarrow>
               (Next, s1\<lparr>FutureResponseActions :=
                           record_action (length item) Ignore (FutureResponseActions s1),
                         QueuedReads := True\<rparr>)))"

definition WriteLoop_GetResultOfQuery :: "io \<Rightarrow> WriteQueueItem \<Rightarrow> RedisConnection \<Rightarrow> flow \<times> RedisConnection" where
  "WriteLoop_GetResultOfQuery io next s =
     (case ItemGetResultOfQuery next of
        None \<Rightarrow> (Next, s)
      | Some item \<Rightarrow>
          (case WriteOne io (fst item) s of
             (Some forced_unwind, s1) \<Rightarrow> (Throw forced_unwind, destroy_next next s1)
           | (Some ex, s1) \<Rightarrow>
               (case Reply_set_exception (snd item) ex s1 of
                  Inl thrown \<Rightarrow> (Throw thrown, destroy_next next s1)
                | Inr s2 \<Rightarrow> (Continue, destroy_next next s2))
           | (None, s1) \<Rightarrow>
               (Next, s1\<lparr>ReplyPromises := ReplyPromises s1 @ [snd item],
                         FutureResponseActions := record_action 1 Deliver (FutureResponseActions s1),
                         QueuedReads := True\<rparr>)))"

definition WriteLoop_GetResultsOfQueries :: "io \<Rightarrow> WriteQueueItem \<Rightarrow> RedisConnection \<Rightarrow> flow \<times> RedisConnection" where
  "WriteLoop_GetResultsOfQueries io next s =
     (case ItemGetResultsOfQueries next of
        None \<Rightarrow> (Next, s)
      | Some item \<Rightarrow>
          (case WriteAll io (fst item) 0 s of
             (Some forced_unwind, i, s1) \<Rightarrow>
               (Throw forced_unwind, Replies_promise_destroy (snd item) s1)
           | (Some ex, i, s1) \<Rightarrow>
               (case Replies_set_exception (snd item) ex s1 of
                  Inl thrown \<Rightarrow> (Throw thrown, Replies_promise_destroy (snd item) s1)
                | Inr s2 \<Rightarrow> (Continue, Replies_promise_destroy (snd item) s2))
           | (None, i, s1) \<Rightarrow>
               (Next, s1\<lparr>RepliesPromises := RepliesPromises s1 @ [snd item],
                         FutureResponseActions := FutureResponseActions s1
                            @ [\<lparr>Amount = length (fst item), Action = DeliverBulk\<rparr>],
                         QueuedReads := True\<rparr>)))"

text \<open>The body of \<open>while (!m_Queues.Writes.empty())\<close> for the item \<open>next\<close> just popped.\<close>

definition WriteLoop_item :: "io \<Rightarrow> WriteQueueItem \<Rightarrow> RedisConnection \<Rightarrow> flow \<times> RedisConnection" where
  "WriteLoop_item io next s =
     (case WriteLoop_FireAndForgetQuery io next s of
        (Next, s1) \<Rightarrow>
          (case WriteLoop_FireAndForgetQueries io next s1 of
             (Next, s2) \<Rightarrow>
               (case WriteLoop_GetResultOfQuery io next s2 of
                  (Next, s3) \<Rightarrow> WriteLoop_GetResultsOfQueries io next s3
                | (Continue, s3) \<Rightarrow> (Continue, s3)
                | (Throw ex, s3) \<Rightarrow> (Throw ex, s3))
           | (Continue, s2) \<Rightarrow> (Continue, s2)
           | (Throw ex, s2) \<Rightarrow> (Throw ex, s2))
      | (Continue, s1) \<Rightarrow> (Continue, s1)
      | (Throw ex, s1) \<Rightarrow> (Throw ex, s1))"

text \<open>
  One move of the coroutine: leave \<open>Wait\<close> when the flag is set; at the \<open>while\<close>,
  either \<open>Clear\<close> and wait again, or pop the front item and run the body for it. The
  body changes the queues only after its last \<open>WriteOne\<close> has returned, without
  suspending in between, so running it in one move loses no interleaving of the
  queue updates.
\<close>

definition WriteLoop_step :: "io \<Rightarrow> RedisConnection \<Rightarrow> RedisConnection" where
  "WriteLoop_step io s =
     (case WriteLoop_pc s of
        WriteWaiting \<Rightarrow> (if QueuedWrites s then s\<lparr>WriteLoop_pc := WriteAtWhile\<rparr> else s)
      | WriteAtWhile \<Rightarrow>
          (case Writes s of
             [] \<Rightarrow> s\<lparr>QueuedWrites := False, WriteLoop_pc := WriteWaiting\<rparr>
           | next # rest \<Rightarrow>
               (case WriteLoop_item io next (s\<lparr>Writes := rest\<rparr>) of
                  (Throw ex, s1) \<Rightarrow> s1\<lparr>WriteLoop_pc := WriteExited ex\<rparr>
                | (Next, s1) \<Rightarrow> s1
                | (Continue, s1) \<Rightarrow> s1))
      | WriteExited ex \<Rightarrow> s)"

section \<open>ReadLoop\<close>

text \<open>\<open>case ResponseAction::Ignore\<close>: the \<open>try\<close> block encloses the whole \<open>for\<close> loop.\<close>

definition ReadLoop_Ignore :: "io \<Rightarrow> nat \<Rightarrow> RedisConnection \<Rightarrow> RedisConnection" where
  "ReadLoop_Ignore io i s =
     (if i = 0 then s\<lparr>ReadLoop_pc := ReadAtWhile\<rparr>
      else (case ReadOne io s of
              (Inr reply, s1) \<Rightarrow> s1\<lparr>ReadLoop_pc := IgnoreFor (i - 1)\<rparr>
            | (Inl forced_unwind, s1) \<Rightarrow> s1\<lparr>ReadLoop_pc := ReadExited forced_unwind\<rparr>
            | (Inl (std_exception w), s1) \<Rightarrow>
                (Log LogCritical ''RedisWriter''
                   (''Error during receiving the response to a query which has been fired and forgotten: '' @ w)
                   s1)\<lparr>ReadLoop_pc := ReadAtWhile\<rparr>
            | (Inl non_std_exception, s1) \<Rightarrow>
                (Log LogCritical ''RedisWriter''
                   ''Error during receiving the response to a query which has been fired and forgotten''
                   s1)\<lparr>ReadLoop_pc := ReadAtWhile\<rparr>))"

text \<open>
  \<open>case ResponseAction::Deliver\<close>: pop a promise, then \<open>ReadOne\<close> inside its own \<open>try\<close>.
  Here and in the next case \<open>promise\<close> is a local that owns the shared state: an
  exception that leaves the loop destroys it.
\<close>

definition ReadLoop_Deliver :: "nat \<Rightarrow> RedisConnection \<Rightarrow> RedisConnection" where
  "ReadLoop_Deliver i s =
     (if i = 0 then s\<lparr>ReadLoop_pc := ReadAtWhile\<rparr>
      else (case ReplyPromises s of
              [] \<Rightarrow> s\<lparr>ReadLoop_pc := ReadUndefined\<rparr>
            | promise # rest \<Rightarrow> s\<lparr>ReplyPromises := rest, ReadLoop_pc := DeliverReadOne i promise\<rparr>))"

definition ReadLoop_DeliverReadOne :: "io \<Rightarrow> nat \<Rightarrow> promise \<Rightarrow> RedisConnection \<Rightarrow> RedisConnection" where
  "ReadLoop_DeliverReadOne io i promise s =
     (case ReadOne io s of
        (Inl forced_unwind, s1) \<Rightarrow>
          (Reply_promise_destroy promise s1)\<lparr>ReadLoop_pc := ReadExited forced_unwind\<rparr>
      | (Inl ex, s1) \<Rightarrow>
          (case Reply_set_exception promise ex s1 of
             Inl thrown \<Rightarrow> (Reply_promise_destroy promise s1)\<lparr>ReadLoop_pc := ReadExited thrown\<rparr>
           | Inr s2 \<Rightarrow> s2\<lparr>ReadLoop_pc := DeliverFor (i - 1)\<rparr>)
      | (Inr reply, s1) \<Rightarrow>
          (case Reply_set_value promise reply s1 of
             Inl thrown \<Rightarrow> (Reply_promise_destroy promise s1)\<lparr>ReadLoop_pc := ReadExited thrown\<rparr>
           | Inr s2 \<Rightarrow> s2\<lparr>ReadLoop_pc := DeliverFor (i - 1)\<rparr>))"

text \<open>
  \<open>case ResponseAction::DeliverBulk\<close>: the \<open>try\<close> is inside the \<open>for\<close> loop, and
  \<open>promise.set_value\<close> follows the loop unconditionally.
\<close>

definition ReadLoop_DeliverBulk :: "io \<Rightarrow> nat \<Rightarrow> promise \<Rightarrow> Reply list \<Rightarrow> RedisConnection \<Rightarrow> RedisConnection" where
  "ReadLoop_DeliverBulk io i promise replies s =
     (if i = 0
      then (case Replies_set_value promise replies s of
              Inl thrown \<Rightarrow> (Replies_promise_destroy promise s)\<lparr>ReadLoop_pc := ReadExited thrown\<rparr>
            | Inr s1 \<Rightarrow> s1\<lparr>ReadLoop_pc := ReadAtWhile\<rparr>)
      else (case ReadOne io s of
              (Inr reply, s1) \<Rightarrow> s1\<lparr>ReadLoop_pc := DeliverBulkFor (i - 1) promise (replies @ [reply])\<rparr>
            | (Inl forced_unwind, s1) \<Rightarrow>
                (Replies_promise_destroy promise s1)\<lparr>ReadLoop_pc := ReadExited forced_unwind\<rparr>
            | (Inl ex, s1) \<Rightarrow>
                (case Replies_set_exception promise ex s1 of
                   Inl thrown \<Rightarrow>
                     (Replies_promise_destroy promise s1)\<lparr>ReadLoop_pc := ReadExited thrown\<rparr>
                 | Inr s2 \<Rightarrow> s2\<lparr>ReadLoop_pc := DeliverBulkFor (i - 1) promise replies\<rparr>)))"

text \<open>
  One move of the coroutine. At the \<open>while\<close>: \<open>Clear\<close> and wait again, or pop the
  front entry and enter its \<open>case\<close>. Inside a \<open>for\<close> loop: one test of the counter
  and, if it is not zero, one pass through the loop body.
\<close>

definition ReadLoop_step :: "io \<Rightarrow> RedisConnection \<Rightarrow> RedisConnection" where
  "ReadLoop_step io s =
     (case ReadLoop_pc s of
        ReadWaiting \<Rightarrow> (if QueuedReads s then s\<lparr>ReadLoop_pc := ReadAtWhile\<rparr> else s)
      | ReadAtWhile \<Rightarrow>
          (case FutureResponseActions s of
             [] \<Rightarrow> s\<lparr>QueuedReads := False, ReadLoop_pc := ReadWaiting\<rparr>
           | item # rest \<Rightarrow>
               (let s1 = s\<lparr>FutureResponseActions := rest\<rparr> in
                case Action item of
                  Ignore \<Rightarrow> s1\<lparr>ReadLoop_pc := IgnoreFor (Amount item)\<rparr>
                | Deliver \<Rightarrow> s1\<lparr>ReadLoop_pc := DeliverFor (Amount item)\<rparr>
                | DeliverBulk \<Rightarrow>
                    (case RepliesPromises s1 of
                       [] \<Rightarrow> s1\<lparr>ReadLoop_pc := ReadUndefined\<rparr>
                     | promise # rest' \<Rightarrow>
                         s1\<lparr>RepliesPromises := rest',
                            ReadLoop_pc := DeliverBulkFor (Amount item) promise []\<rparr>)))
      | IgnoreFor i \<Rightarrow> ReadLoop_Ignore io i s
      | DeliverFor i \<Rightarrow> ReadLoop_Deliver i s
      | DeliverReadOne i promise \<Rightarrow> ReadLoop_DeliverReadOne io i promise s
      | DeliverBulkFor i promise replies \<Rightarrow> ReadLoop_DeliverBulk io i promise replies s
      | ReadExited ex \<Rightarrow> s
      | ReadUndefined \<Rightarrow> s)"

section \<open>The connection as a whole\<close>

text \<open>
  Everything runs on one strand, so an execution is a sequence of events: calls of the
  public functions, and moves of the spawned coroutines. A loop moves only once it has
  been spawned; \<open>Connect\<close> runs once for each time it has been spawned.
\<close>

datatype event =
    CallStart
  | CallFireAndForgetQuery Query
  | CallFireAndForgetQueries "Query list"
  | CallGetResultOfQuery Query
  | CallGetResultsOfQueries "Query list"
  | RunConnect
  | RunWriteLoop
  | RunReadLoop

fun fire :: "io \<Rightarrow> event \<Rightarrow> RedisConnection \<Rightarrow> RedisConnection" where
  "fire io CallStart s = Start s"
| "fire io (CallFireAndForgetQuery query) s = FireAndForgetQuery query s"
| "fire io (CallFireAndForgetQueries queries) s = FireAndForgetQueries queries s"
| "fire io (CallGetResultOfQuery query) s = snd (GetResultOfQuery query s)"
| "fire io (CallGetResultsOfQueries queries) s = snd (GetResultsOfQueries queries s)"
| "fire io RunConnect s =
     (if ConnectCalls s < count_list (Spawned s) ConnectCoroutine then snd (Connect io s) else s)"
| "fire io RunWriteLoop s =
     (if WriteLoopCoroutine \<in> set (Spawned s) then WriteLoop_step io s else s)"
| "fire io RunReadLoop s =
     (if ReadLoopCoroutine \<in> set (Spawned s) then ReadLoop_step io s else s)"

fun run :: "io \<Rightarrow> event list \<Rightarrow> RedisConnection \<Rightarrow> RedisConnection" where
  "run io [] s = s"
| "run io (ev # evs) s = run io evs (fire io ev s)"

section \<open>Notions used in the statements and proofs\<close>

subsection \<open>Measures on the queue and the place of the Reader\<close>

text \<open>The sum of the amounts of the entries with a given action.\<close>

definition units :: "ResponseAction \<Rightarrow> FutureResponseAction list \<Rightarrow> nat" where
  "units a fas = sum_list (map Amount (filter (\<lambda>entry. Action entry = a) fas))"

text \<open>
  The Reader is between two entries when it waits or stands at the \<open>while\<close>; in the
  middle of a Deliver entry it has yet to pop \<open>reader_owes\<close> handles for that entry.
\<close>

definition reader_between_entries :: "RedisConnection \<Rightarrow> bool" where
  "reader_between_entries s = (ReadLoop_pc s = ReadWaiting \<or> ReadLoop_pc s = ReadAtWhile)"

fun reader_owes :: "reader_pc \<Rightarrow> nat" where
  "reader_owes (DeliverFor i) = i"
| "reader_owes (DeliverReadOne i promise) = i - 1"
| "reader_owes pc = 0"

fun reader_gone :: "reader_pc \<Rightarrow> bool" where
  "reader_gone (ReadExited ex) = True"
| "reader_gone ReadUndefined = True"
| "reader_gone pc = False"

text \<open>No two neighbours are both Ignore, and no two neighbours are both Deliver.\<close>

fun coalesced :: "FutureResponseAction list \<Rightarrow> bool" where
  "coalesced (x # y # rest) =
     (\<not> (Action x = Ignore \<and> Action y = Ignore) \<and> \<not> (Action x = Deliver \<and> Action y = Deliver)
      \<and> coalesced (y # rest))"
| "coalesced fas = True"

definition errors_logged :: "RedisConnection \<Rightarrow> LogEntry list" where
  "errors_logged s = filter (\<lambda>entry. fst entry = LogCritical) (LogOutput s)"

subsection \<open>Predicates on the queue and the connection\<close>

text \<open>The four items as the submission functions build them.\<close>

definition FireSingle :: "Query \<Rightarrow> WriteQueueItem" where
  "FireSingle query = \<lparr>ItemFireAndForgetQuery = Some query, ItemFireAndForgetQueries = None,
     ItemGetResultOfQuery = None, ItemGetResultsOfQueries = None\<rparr>"

definition FireBulk :: "Query list \<Rightarrow> WriteQueueItem" where
  "FireBulk queries = \<lparr>ItemFireAndForgetQuery = None, ItemFireAndForgetQueries = Some queries,
     ItemGetResultOfQuery = None, ItemGetResultsOfQueries = None\<rparr>"

definition AwaitSingle :: "Query \<Rightarrow> promise \<Rightarrow> WriteQueueItem" where
  "AwaitSingle query p = \<lparr>ItemFireAndForgetQuery = None, ItemFireAndForgetQueries = None,
     ItemGetResultOfQuery = Some (query, p), ItemGetResultsOfQueries = None\<rparr>"

definition AwaitBulk :: "Query list \<Rightarrow> promise \<Rightarrow> WriteQueueItem" where
  "AwaitBulk queries p = \<lparr>ItemFireAndForgetQuery = None, ItemFireAndForgetQueries = None,
     ItemGetResultOfQuery = None, ItemGetResultsOfQueries = Some (queries, p)\<rparr>"

text \<open>The number of entries with a given action.\<close>

definition entries :: "ResponseAction \<Rightarrow> FutureResponseAction list \<Rightarrow> nat" where
  "entries a fas = length (filter (\<lambda>entry. Action entry = a) fas)"

text \<open>Every entry has a positive amount.\<close>

definition positive :: "FutureResponseAction list \<Rightarrow> bool" where
  "positive fas = (\<forall>entry\<in>set fas. 0 < Amount entry)"

text \<open>A call that is not a bulk submission with an empty list of queries.\<close>

definition no_empty_bulk :: "event \<Rightarrow> bool" where
  "no_empty_bulk ev = (ev \<noteq> CallFireAndForgetQueries [] \<and> ev \<noteq> CallGetResultsOfQueries [])"

text \<open>An item whose list of queries, if it has one, is not empty.\<close>

definition nonempty_item :: "WriteQueueItem \<Rightarrow> bool" where
  "nonempty_item item = (ItemFireAndForgetQueries item \<noteq> Some []
     \<and> (\<forall>p. ItemGetResultsOfQueries item \<noteq> Some ([], p)))"

text \<open>
  From \<open>fas\<close> to \<open>fas'\<close> every entry keeps its place and its action, and every entry
  but the last one, and every DeliverBulk entry, is unchanged.
\<close>

definition stable :: "FutureResponseAction list \<Rightarrow> FutureResponseAction list \<Rightarrow> bool" where
  "stable fas fas' = (length fas \<le> length fas' \<and>
     (\<forall>k<length fas. Action (fas' ! k) = Action (fas ! k) \<and>
        (Action (fas ! k) = DeliverBulk \<or> Suc k < length fas \<longrightarrow> fas' ! k = fas ! k)))"

text \<open>How often a coroutine has been handed to \<open>asio::spawn\<close>.\<close>

definition spawned :: "coroutine \<Rightarrow> RedisConnection \<Rightarrow> nat" where
  "spawned c s = count_list (Spawned s) c"

text \<open>A connect attempt has been spawned and has not returned yet.\<close>

definition connect_in_flight :: "RedisConnection \<Rightarrow> bool" where
  "connect_in_flight s = (ConnectCalls s < spawned ConnectCoroutine s)"

text \<open>Nothing was logged and no promise was signalled between two states.\<close>

definition quiet :: "RedisConnection \<Rightarrow> RedisConnection \<Rightarrow> bool" where
  "quiet s t = (LogOutput t = LogOutput s \<and> ReplyStates t = ReplyStates s \<and> RepliesStates t = RepliesStates s)"

text \<open>
  From \<open>s\<close> to \<open>t\<close> the only change to the promises is that some which held no result
  have been destroyed, and so hold \<open>broken_promise\<close>: no value and no other exception
  has been set.
\<close>

definition only_broken :: "RedisConnection \<Rightarrow> RedisConnection \<Rightarrow> bool" where
  "only_broken s t =
     ((\<forall>p. ReplyStates t p = ReplyStates s p
            \<or> (ReplyStates s p = Pending \<and> ReplyStates t p = HasException broken_promise))
      \<and> (\<forall>p. RepliesStates t p = RepliesStates s p
            \<or> (RepliesStates s p = Pending \<and> RepliesStates t p = HasException broken_promise)))"

text \<open>Nothing was logged, and the promises changed by destruction only.\<close>

definition unwound :: "RedisConnection \<Rightarrow> RedisConnection \<Rightarrow> bool" where
  "unwound s t = (LogOutput t = LogOutput s \<and> only_broken s t)"

text \<open>Both loops are running and wait, with nothing queued.\<close>

definition idle :: "RedisConnection \<Rightarrow> bool" where
  "idle s = (WriteLoopCoroutine \<in> set (Spawned s) \<and> ReadLoopCoroutine \<in> set (Spawned s)
     \<and> WriteLoop_pc s = WriteWaiting \<and> ReadLoop_pc s = ReadWaiting
     \<and> Writes s = [] \<and> FutureResponseActions s = [] \<and> RepliesPromises s = [])"

subsection \<open>Relations and invariants used in the proofs\<close>

text \<open>
  What a pass of the Writer changes in step: the Deliver units and the single promises
  (\<open>keeps1\<close>), the DeliverBulk entries and the bulk promises (\<open>keeps2\<close>), and the form
  of the queue (\<open>keeps5\<close>).
\<close>

definition keeps1 :: "RedisConnection \<Rightarrow> RedisConnection \<Rightarrow> bool" where
  "keeps1 s s' = (ReadLoop_pc s' = ReadLoop_pc s \<and>
     units Deliver (FutureResponseActions s') + length (ReplyPromises s)
       = units Deliver (FutureResponseActions s) + length (ReplyPromises s'))"

definition keeps2 :: "RedisConnection \<Rightarrow> RedisConnection \<Rightarrow> bool" where
  "keeps2 s s' = (entries DeliverBulk (FutureResponseActions s') + length (RepliesPromises s)
       = entries DeliverBulk (FutureResponseActions s) + length (RepliesPromises s'))"

definition keeps5 :: "RedisConnection \<Rightarrow> RedisConnection \<Rightarrow> bool" where
  "keeps5 s s' = ((coalesced (FutureResponseActions s) \<longrightarrow> coalesced (FutureResponseActions s'))
     \<and> stable (FutureResponseActions s) (FutureResponseActions s'))"

text \<open>What a pass of the Writer over one item leaves alone.\<close>

definition writer_frame :: "RedisConnection \<Rightarrow> RedisConnection \<Rightarrow> bool" where
  "writer_frame s s' = (Writes s' = Writes s \<and> Spawned s' = Spawned s \<and> Started s' = Started s
     \<and> Connecting s' = Connecting s \<and> Connected s' = Connected s \<and> ConnectCalls s' = ConnectCalls s
     \<and> ReadLoop_pc s' = ReadLoop_pc s \<and> WriteLoop_pc s' = WriteLoop_pc s
     \<and> ReadCalls s' = ReadCalls s \<and> PromisesMade s' = PromisesMade s \<and> QueuedWrites s' = QueuedWrites s)"

text \<open>
  The calls of \<open>WriteOne\<close> made between two states, by number: all of them, or all
  but the last, returned normally.
\<close>

definition sends_ok :: "io \<Rightarrow> RedisConnection \<Rightarrow> RedisConnection \<Rightarrow> bool" where
  "sends_ok io s t = (\<forall>k. WriteCalls s \<le> k \<and> k < WriteCalls t \<longrightarrow> write_result io k = None)"

definition sends_ok_but_last :: "io \<Rightarrow> RedisConnection \<Rightarrow> RedisConnection \<Rightarrow> bool" where
  "sends_ok_but_last io s t = (\<forall>k. WriteCalls s \<le> k \<and> Suc k < WriteCalls t \<longrightarrow> write_result io k = None)"

definition unwinds :: "io \<Rightarrow> RedisConnection \<Rightarrow> flow \<Rightarrow> RedisConnection \<Rightarrow> bool" where
  "unwinds io s f t =
     (WriteCalls s \<le> WriteCalls t
      \<and> (f = Next \<longrightarrow> sends_ok io s t \<and> quiet s t)
      \<and> (f \<noteq> Next \<longrightarrow> WriteCalls s < WriteCalls t \<and> sends_ok_but_last io s t
            \<and> (write_result io (WriteCalls t - 1) = Some forced_unwind \<longrightarrow>
                  f = Throw forced_unwind \<and> unwound s t)))"

text \<open>The invariants of the connection, for the Reader at any place of its loop.\<close>

definition inv1 :: "RedisConnection \<Rightarrow> bool" where
  "inv1 s = (reader_gone (ReadLoop_pc s) \<or>
     units Deliver (FutureResponseActions s) + reader_owes (ReadLoop_pc s) = length (ReplyPromises s))"

definition inv2 :: "RedisConnection \<Rightarrow> bool" where
  "inv2 s = ((\<exists>ex. ReadLoop_pc s = ReadExited ex) \<or>
     (ReadLoop_pc s \<noteq> ReadUndefined
      \<and> units Deliver (FutureResponseActions s) + reader_owes (ReadLoop_pc s) = length (ReplyPromises s)
      \<and> entries DeliverBulk (FutureResponseActions s) = length (RepliesPromises s)))"

definition inv8 :: "RedisConnection \<Rightarrow> bool" where
  "inv8 s = (spawned ReadLoopCoroutine s = (if Started s then 1 else 0)
     \<and> spawned WriteLoopCoroutine s = (if Started s then 1 else 0)
     \<and> ConnectCalls s \<le> spawned ConnectCoroutine s
     \<and> spawned ConnectCoroutine s \<le> Suc (ConnectCalls s)
     \<and> (Connecting s = (connect_in_flight s \<or> Connected s)))"

definition inv9 :: "RedisConnection \<Rightarrow> bool" where
  "inv9 s = (positive (FutureResponseActions s) \<and> (\<forall>item\<in>set (Writes s). nonempty_item item))"

subsection \<open>Sample inputs\<close>

text \<open>Transports: one on which every call succeeds, and some on which calls fail.\<close>

definition io_ok :: io where
  "io_ok = \<lparr>connect_result = (\<lambda>k. None), write_result = (\<lambda>k. None),
            read_result = (\<lambda>k. Inr (SimpleStringReply ''OK''))\<rparr>"

definition io_refused :: io where
  "io_refused = \<lparr>connect_result = (\<lambda>k. Some (std_exception ''Connection refused'')),
       write_result = (\<lambda>k. Some (std_exception ''Bad file descriptor'')),
       read_result = (\<lambda>k. Inl (std_exception ''Bad file descriptor''))\<rparr>"

definition io_second_write_fails :: io where
  "io_second_write_fails = \<lparr>connect_result = (\<lambda>k. None),
       write_result = (\<lambda>k. if k = 1 then Some (std_exception ''Broken pipe'') else None),
       read_result = (\<lambda>k. Inr (SimpleStringReply ''OK''))\<rparr>"

definition io_first_read_fails :: io where
  "io_first_read_fails = \<lparr>connect_result = (\<lambda>k. None), write_result = (\<lambda>k. None),
       read_result = (\<lambda>k. if k = 0 then Inl (std_exception ''Connection reset by peer'')
                           else Inr (SimpleStringReply ''OK''))\<rparr>"

definition io_two_reads_fail :: io where
  "io_two_reads_fail = \<lparr>connect_result = (\<lambda>k. None), write_result = (\<lambda>k. None),
       read_result = (\<lambda>k. if k < 2 then Inl (std_exception ''Connection reset by peer'')
                           else Inr (SimpleStringReply ''OK''))\<rparr>"

definition io_unwind :: io where
  "io_unwind = \<lparr>connect_result = (\<lambda>k. Some forced_unwind), write_result = (\<lambda>k. Some forced_unwind),
       read_result = (\<lambda>k. Inl forced_unwind)\<rparr>"

text \<open>A transport on which the call numbered \<open>n\<close> of a write or a read is a forced unwind.\<close>

definition io_unwind_at :: "nat \<Rightarrow> io" where
  "io_unwind_at n = \<lparr>connect_result = (\<lambda>k. None),
       write_result = (\<lambda>k. if k = n then Some forced_unwind else None),
       read_result = (\<lambda>k. if k = n then Inl forced_unwind else Inr (SimpleStringReply ''OK''))\<rparr>"

text \<open>Sample executions and the states they lead to.\<close>

definition run1 :: "event list" where
  "run1 = [CallStart, CallFireAndForgetQuery [''SET'', ''k'', ''1''], CallGetResultOfQuery [''GET'', ''k''],
      RunWriteLoop, RunWriteLoop, RunWriteLoop]"

definition run2 :: "event list" where
  "run2 = [CallStart, CallFireAndForgetQueries [[''SET'', ''a'', ''1''], [''SET'', ''b'', ''2'']],
     RunWriteLoop, RunWriteLoop, RunReadLoop, RunReadLoop, RunReadLoop, RunReadLoop]"

definition run3 :: "event list" where
  "run3 = [CallStart, CallFireAndForgetQueries [[''SET'', ''a'', ''1''], [''SET'', ''b'', ''2'']],
     RunWriteLoop, RunWriteLoop]"

definition run5 :: "event list" where
  "run5 = [CallStart, CallFireAndForgetQuery [''SET'', ''k'', ''1''], CallGetResultOfQuery [''GET'', ''k''],
      CallGetResultsOfQueries [[''GET'', ''a''], [''GET'', ''b'']],
      RunWriteLoop, RunWriteLoop, RunWriteLoop, RunWriteLoop]"

definition run6 :: "event list" where
  "run6 = [CallStart, CallGetResultsOfQueries [[''GET'', ''a''], [''GET'', ''b'']],
     RunWriteLoop, RunWriteLoop, RunReadLoop, RunReadLoop, RunReadLoop, RunReadLoop, RunReadLoop]"

definition run6' :: "event list" where
  "run6' = [CallStart, CallGetResultsOfQueries [[''GET'', ''a''], [''GET'', ''b''], [''GET'', ''c'']],
     RunWriteLoop, RunWriteLoop, RunReadLoop, RunReadLoop, RunReadLoop, RunReadLoop, RunReadLoop, RunReadLoop]"

definition run9 :: "event list" where
  "run9 = [CallStart, CallFireAndForgetQueries [], CallGetResultsOfQueries [],
     RunWriteLoop, RunWriteLoop, RunWriteLoop]"

text \<open>
  A call of \<open>GetResultsOfQueries\<close> with no queries, two moves of the Writer (leave
  \<open>Wait\<close>, handle the item) and three of the Reader (leave \<open>Wait\<close>, pop the entry,
  leave its \<open>for\<close> loop).
\<close>

definition run10 :: "event list" where
  "run10 = [CallGetResultsOfQueries [], RunWriteLoop, RunWriteLoop, RunReadLoop, RunReadLoop, RunReadLoop]"

text \<open>The state in which the Reader has just popped an Ignore entry of amount 2.\<close>

definition state2 :: RedisConnection where
  "state2 = run io_ok [CallStart, CallFireAndForgetQueries [[''SET'', ''a'', ''1''], [''SET'', ''b'', ''2'']],
     RunWriteLoop, RunWriteLoop, RunReadLoop, RunReadLoop] (RedisConnection_new ''localhost'' 6379 [])"

text \<open>
  After \<open>run5\<close> the three queued actions are \<open>Ignore 1\<close>, \<open>Deliver 1\<close>, \<open>DeliverBulk 2\<close>,
  four queries are sent and the Reader has not moved.
\<close>

definition state5 :: RedisConnection where
  "state5 = run io_ok run5 (RedisConnection_new ''localhost'' 6379 [])"

text \<open>The state in which the Writer stands at the \<open>while\<close> with one item queued.\<close>

definition state7 :: RedisConnection where
  "state7 = run io_ok [CallStart, CallGetResultOfQuery [''GET'', ''k''], RunWriteLoop]
     (RedisConnection_new ''localhost'' 6379 [])"

text \<open>
  The state in which the Reader stands at the \<open>while\<close> with the zero-amount entry of
  an empty \<open>GetResultsOfQueries\<close> in front, on a transport on which every call fails.
\<close>

definition state10 :: RedisConnection where
  "state10 = run io_refused [CallStart, CallGetResultsOfQueries [], RunWriteLoop, RunWriteLoop, RunReadLoop]
     (RedisConnection_new ''localhost'' 6379 [])"

text \<open>The Reader in the loop of a Deliver entry, and of a DeliverBulk entry, before a read.\<close>

definition state_deliver :: RedisConnection where
  "state_deliver = run io_ok [CallStart, CallGetResultOfQuery [''GET'', ''k''], RunWriteLoop, RunWriteLoop,
     RunReadLoop, RunReadLoop, RunReadLoop] (RedisConnection_new ''localhost'' 6379 [])"

definition state_bulk :: RedisConnection where
  "state_bulk = run io_ok [CallStart, CallGetResultsOfQueries [[''GET'', ''a''], [''GET'', ''b'']],
     RunWriteLoop, RunWriteLoop, RunReadLoop, RunReadLoop] (RedisConnection_new ''localhost'' 6379 [])"

section \<open>Properties and their proofs\<close>

subsection \<open>Basic facts about the Writer's pass over an item\<close>

lemmas destroy_defs = destroy_next_def Reply_promise_destroy_def Replies_promise_destroy_def Let_def

lemma units_append [simp]: "units a (xs @ ys) = units a xs + units a ys"
  by (simp add: units_def)

lemma units_record_action:
  "units b (record_action n a fas) = units b fas + (if a = b then n else 0)"
proof (cases fas rule: rev_cases)
  case Nil
  then show ?thesis by (simp add: record_action_def units_def)
next
  case (snoc xs x)
  then show ?thesis by (simp add: record_action_def units_def)
qed

lemma WriteOne_result:
  assumes "WriteOne io q s = (r, s1)"
  shows "r = write_result io (WriteCalls s)"
    and "s1 = s\<lparr>WriteCalls := Suc (WriteCalls s), Sent := Sent s @ (if r = None then [q] else [])\<rparr>"
  using assms by (auto simp: WriteOne_def split: option.splits)

lemma WriteAll_result:
  assumes "WriteAll io qs i s = (r, i', s1)"
  shows "\<exists>n. n \<le> length qs \<and> i' = i + n
     \<and> s1 = s\<lparr>WriteCalls := WriteCalls s + (if r = None then n else Suc n), Sent := Sent s @ take n qs\<rparr>
     \<and> (\<forall>j<n. write_result io (WriteCalls s + j) = None)
     \<and> (case r of None \<Rightarrow> n = length qs
         | Some ex \<Rightarrow> n < length qs \<and> write_result io (WriteCalls s + n) = Some ex)"
  using assms
proof (induction qs arbitrary: i s)
  case Nil
  then show ?case by simp
next
  case (Cons q qs)
  obtain r0 s0 where w: "WriteOne io q s = (r0, s0)" by fastforce
  note w0 = WriteOne_result [OF w]
  show ?case
  proof (cases r0)
    case (Some ex)
    with Cons.prems w have eq: "r = Some ex" "i' = i" "s1 = s0" by simp_all
    have "write_result io (WriteCalls s) = Some ex" using w0(1) Some by simp
    then show ?thesis
      using eq w0(2) Some by (intro exI [of _ 0]) simp
  next
    case None
    with Cons.prems w have rec: "WriteAll io qs (Suc i) s0 = (r, i', s1)" by simp
    from Cons.IH [OF rec] obtain n where n: "n \<le> length qs" "i' = Suc i + n"
      "s1 = s0\<lparr>WriteCalls := WriteCalls s0 + (if r = None then n else Suc n), Sent := Sent s0 @ take n qs\<rparr>"
      "\<forall>j<n. write_result io (WriteCalls s0 + j) = None"
      "case r of None \<Rightarrow> n = length qs
         | Some ex \<Rightarrow> n < length qs \<and> write_result io (WriteCalls s0 + n) = Some ex"
      by blast
    have c0: "WriteCalls s0 = Suc (WriteCalls s)" "Sent s0 = Sent s @ [q]"
      using w0 None by simp_all
    have all: "\<forall>j<Suc n. write_result io (WriteCalls s + j) = None"
    proof (intro allI impI)
      fix j assume "j < Suc n"
      show "write_result io (WriteCalls s + j) = None"
      proof (cases j)
        case 0
        then show ?thesis using w0 None by simp
      next
        case (Suc k)
        then show ?thesis using n(4) c0 \<open>j < Suc n\<close> by simp
      qed
    qed
    show ?thesis
      using n c0 all w0(2) None
      by (intro exI [of _ "Suc n"]) (auto split: option.splits)
  qed
qed

lemma units_simps [simp]:
  "units a [] = 0"
  "units a (x # xs) = (if Action x = a then Amount x else 0) + units a xs"
  by (simp_all add: units_def)

lemma WriteLoop_item_rel:
  assumes refl: "\<And>t. R t t"
    and trans: "\<And>a b c. R a b \<Longrightarrow> R b c \<Longrightarrow> R a c"
    and b1: "\<And>t. R t (snd (WriteLoop_FireAndForgetQuery io next t))"
    and b2: "\<And>t. R t (snd (WriteLoop_FireAndForgetQueries io next t))"
    and b3: "\<And>t. R t (snd (WriteLoop_GetResultOfQuery io next t))"
    and b4: "\<And>t. R t (snd (WriteLoop_GetResultsOfQueries io next t))"
  shows "R s (snd (WriteLoop_item io next s))"
proof -
  obtain f1 s1 where e1: "WriteLoop_FireAndForgetQuery io next s = (f1, s1)" by fastforce
  obtain f2 s2 where e2: "WriteLoop_FireAndForgetQueries io next s1 = (f2, s2)" by fastforce
  obtain f3 s3 where e3: "WriteLoop_GetResultOfQuery io next s2 = (f3, s3)" by fastforce
  obtain f4 s4 where e4: "WriteLoop_GetResultsOfQueries io next s3 = (f4, s4)" by fastforce
  have r1: "R s s1" using b1 [of s] e1 by simp
  have r2: "R s1 s2" using b2 [of s1] e2 by simp
  have r3: "R s2 s3" using b3 [of s2] e3 by simp
  have r4: "R s3 s4" using b4 [of s3] e4 by simp
  have r12: "R s s2" using r1 r2 trans by blast
  have r13: "R s s3" using r12 r3 trans by blast
  have r14: "R s s4" using r13 r4 trans by blast
  show ?thesis
    using e1 e2 e3 e4 r1 r12 r13 r14
    by (cases f1; cases f2; cases f3; simp add: WriteLoop_item_def)
qed

subsection \<open>C1: Deliver units and pending promises\<close>

lemma keeps1_b1: "keeps1 t (snd (WriteLoop_FireAndForgetQuery io next t))"
  by (auto simp: destroy_defs keeps1_def WriteLoop_FireAndForgetQuery_def units_record_action Log_def
      split: option.splits exn.splits prod.splits dest!: WriteOne_result(2))

lemma keeps1_b2: "keeps1 t (snd (WriteLoop_FireAndForgetQueries io next t))"
  by (auto simp: destroy_defs keeps1_def WriteLoop_FireAndForgetQueries_def units_record_action Log_def
      split: option.splits exn.splits prod.splits dest!: WriteAll_result)

lemma keeps1_b3: "keeps1 t (snd (WriteLoop_GetResultOfQuery io next t))"
  by (auto simp: destroy_defs keeps1_def WriteLoop_GetResultOfQuery_def units_record_action Reply_set_exception_def
      split: option.splits exn.splits prod.splits sum.splits if_splits dest!: WriteOne_result(2))

lemma keeps1_b4: "keeps1 t (snd (WriteLoop_GetResultsOfQueries io next t))"
  by (auto simp: destroy_defs keeps1_def WriteLoop_GetResultsOfQueries_def units_record_action Replies_set_exception_def
      split: option.splits exn.splits prod.splits sum.splits if_splits dest!: WriteAll_result)

lemma keeps1_item: "keeps1 s (snd (WriteLoop_item io next s))"
  by (rule WriteLoop_item_rel) (auto simp: keeps1_b1 keeps1_b2 keeps1_b3 keeps1_b4, auto simp: keeps1_def)

lemma foldl_Log:
  "foldl (\<lambda>t q. Log a b (f q) t) s qs = s\<lparr>LogOutput := LogOutput s @ map (\<lambda>q. (a, b, f q)) qs\<rparr>"
  by (induction qs arbitrary: s) (simp_all add: Log_def)

lemma FireAndForgetQueries_shape:
  "FireAndForgetQueries queries s =
     s\<lparr>LogOutput := LogOutput s @ map (\<lambda>q. (LogNotice, ''RedisWriter'', ''Firing and forgetting query:'' @ LogQuery q)) queries,
       Writes := Writes s @ [\<lparr>ItemFireAndForgetQuery = None, ItemFireAndForgetQueries = Some queries,
                  ItemGetResultOfQuery = None, ItemGetResultsOfQueries = None\<rparr>],
       QueuedWrites := True\<rparr>"
  by (simp add: FireAndForgetQueries_def foldl_Log Let_def)

lemma GetResultsOfQueries_shape:
  "GetResultsOfQueries queries s =
     (PromisesMade s,
      s\<lparr>LogOutput := LogOutput s @ map (\<lambda>q. (LogNotice, ''RedisWriter'', ''Executing query:'' @ LogQuery q)) queries,
        PromisesMade := Suc (PromisesMade s),
        RepliesStates := (RepliesStates s)(PromisesMade s := Pending),
        Writes := Writes s @ [\<lparr>ItemFireAndForgetQuery = None, ItemFireAndForgetQueries = None,
                  ItemGetResultOfQuery = None, ItemGetResultsOfQueries = Some (queries, PromisesMade s)\<rparr>],
        QueuedWrites := True\<rparr>)"
  by (simp add: GetResultsOfQueries_def foldl_Log Let_def)

lemmas api_defs = Start_def FireAndForgetQuery_def FireAndForgetQueries_shape GetResultOfQuery_def
  GetResultsOfQueries_shape Connect_def Log_def Let_def

lemmas reader_defs = Reply_promise_destroy_def Replies_promise_destroy_def
  ReadLoop_step_def ReadLoop_Ignore_def ReadLoop_Deliver_def
  ReadLoop_DeliverReadOne_def ReadLoop_DeliverBulk_def ReadOne_def Log_def Let_def
  Reply_set_value_def Reply_set_exception_def Replies_set_value_def Replies_set_exception_def

lemma inv1_item: "inv1 t \<Longrightarrow> inv1 (snd (WriteLoop_item io item t))"
  using keeps1_item [of t io item] by (auto simp: inv1_def keeps1_def)

lemma inv1_writer: "inv1 s \<Longrightarrow> inv1 (WriteLoop_step io s)"
proof -
  assume i: "inv1 s"
  note k = inv1_item
  show ?thesis
  proof (cases "WriteLoop_pc s")
    case WriteWaiting
    then show ?thesis using i by (simp add: WriteLoop_step_def inv1_def)
  next
    case (WriteExited ex)
    then show ?thesis using i by (simp add: WriteLoop_step_def)
  next
    case WriteAtWhile
    show ?thesis
    proof (cases "Writes s")
      case Nil
      then show ?thesis using i WriteAtWhile by (simp add: WriteLoop_step_def inv1_def)
    next
      case (Cons item rest)
      have "inv1 (s\<lparr>Writes := rest\<rparr>)" using i by (simp add: inv1_def)
      from k [OF this, of io item] show ?thesis
        using WriteAtWhile Cons
        by (auto simp: WriteLoop_step_def inv1_def split: prod.splits flow.splits)
    qed
  qed
qed

lemma inv1_reader: "inv1 s \<Longrightarrow> inv1 (ReadLoop_step io s)"
  by (cases "ReadLoop_pc s")
     (auto simp: inv1_def reader_defs
       split: list.splits ResponseAction.splits sum.splits exn.splits if_splits)

lemma inv1_fire: "inv1 s \<Longrightarrow> inv1 (fire io ev s)"
  by (cases ev) (auto simp: inv1_writer inv1_reader, auto simp: inv1_def api_defs split: option.splits exn.splits prod.splits)

lemma inv1_run: "inv1 s \<Longrightarrow> inv1 (run io evs s)"
  by (induction evs arbitrary: s) (simp_all add: inv1_fire)

lemma inv1_new: "inv1 (RedisConnection_new h p pa)"
  by (simp add: inv1_def RedisConnection_new_def)

text \<open>
  Claim C1. In every state the connection can reach from its construction, by any
  sequence of calls and coroutine moves and with any behaviour of the transport,
  whenever the Reader is between two entries, the amounts of the Deliver entries in
  \<open>FutureResponseActions\<close> add up to the number of promises in \<open>ReplyPromises\<close>.
\<close>

theorem C1_deliver_units_match_promises:
  "reader_between_entries (run io evs (RedisConnection_new host port path)) \<Longrightarrow>
   units Deliver (FutureResponseActions (run io evs (RedisConnection_new host port path)))
     = length (ReplyPromises (run io evs (RedisConnection_new host port path)))"
  using inv1_run [OF inv1_new, of io evs host port path]
  by (auto simp: inv1_def reader_between_entries_def)

theorem C1_witness:
  "reader_between_entries (run io_ok run1 (RedisConnection_new ''localhost'' 6379 []))
   \<and> units Deliver (FutureResponseActions (run io_ok run1 (RedisConnection_new ''localhost'' 6379 []))) = 1
   \<and> length (ReplyPromises (run io_ok run1 (RedisConnection_new ''localhost'' 6379 []))) = 1"
proof -
  have between: "reader_between_entries (run io_ok run1 (RedisConnection_new ''localhost'' 6379 []))"
    by code_simp
  have len: "length (ReplyPromises (run io_ok run1 (RedisConnection_new ''localhost'' 6379 []))) = 1"
    by code_simp
  show ?thesis
    using between len C1_deliver_units_match_promises [OF between] by simp
qed

subsection \<open>C5: coalescing\<close>

lemma coalesced_snoc:
  "coalesced (xs @ [x]) =
     (coalesced xs \<and> (xs = [] \<or> (\<not> (Action (last xs) = Ignore \<and> Action x = Ignore)
         \<and> \<not> (Action (last xs) = Deliver \<and> Action x = Deliver))))"
  by (induction xs rule: coalesced.induct) auto

lemma coalesced_snoc2:
  "coalesced (xs @ [x, y]) =
     (coalesced (xs @ [x]) \<and> \<not> (Action x = Ignore \<and> Action y = Ignore)
         \<and> \<not> (Action x = Deliver \<and> Action y = Deliver))"
  using coalesced_snoc [of "xs @ [x]" y] by simp

lemma coalesced_tl: "coalesced (x # xs) \<Longrightarrow> coalesced xs"
  by (cases xs) simp_all

lemma coalesced_record_action:
  "coalesced fas \<Longrightarrow> coalesced (record_action n a fas)"
proof (cases fas rule: rev_cases)
  case Nil
  then show ?thesis by (simp add: record_action_def)
next
  case (snoc xs x)
  assume "coalesced fas"
  then show ?thesis using snoc
    by (cases a) (auto simp: record_action_def coalesced_snoc coalesced_snoc2)
qed

lemma stable_refl: "stable fas fas"
  by (simp add: stable_def)

lemma stable_trans:
  assumes ab: "stable a b" and bc: "stable b c"
  shows "stable a c"
  unfolding stable_def
proof (intro conjI allI impI)
  show "length a \<le> length c" using ab bc by (auto simp: stable_def)
next
  fix k assume k: "k < length a"
  then have kb: "k < length b" using ab by (auto simp: stable_def)
  show "Action (c ! k) = Action (a ! k)"
    using ab bc k kb by (auto simp: stable_def)
next
  fix k assume k: "k < length a" and h: "Action (a ! k) = DeliverBulk \<or> Suc k < length a"
  then have kb: "k < length b" using ab by (auto simp: stable_def)
  have e1: "b ! k = a ! k" using ab k h by (auto simp: stable_def)
  have "Action (b ! k) = DeliverBulk \<or> Suc k < length b"
    using h e1 ab by (auto simp: stable_def)
  then have "c ! k = b ! k" using bc kb by (auto simp: stable_def)
  then show "c ! k = a ! k" using e1 by simp
qed

lemma stable_record_action: "a \<noteq> DeliverBulk \<Longrightarrow> stable fas (record_action n a fas)"
proof (cases fas rule: rev_cases)
  case Nil
  then show ?thesis by (simp add: record_action_def stable_def)
next
  case (snoc xs x)
  assume "a \<noteq> DeliverBulk"
  then show ?thesis using snoc
    by (auto simp: record_action_def stable_def nth_append)
qed

lemma stable_append: "stable fas (fas @ ys)"
  by (simp add: stable_def nth_append)

lemma keeps5_b1: "keeps5 t (snd (WriteLoop_FireAndForgetQuery io item t))"
  by (auto simp: destroy_defs keeps5_def WriteLoop_FireAndForgetQuery_def coalesced_record_action stable_record_action
        stable_refl Log_def
      split: option.splits exn.splits prod.splits dest!: WriteOne_result(2))

lemma keeps5_b2: "keeps5 t (snd (WriteLoop_FireAndForgetQueries io item t))"
  by (auto simp: destroy_defs keeps5_def WriteLoop_FireAndForgetQueries_def coalesced_record_action stable_record_action
        stable_refl Log_def
      split: option.splits exn.splits prod.splits dest!: WriteAll_result)

lemma keeps5_b3: "keeps5 t (snd (WriteLoop_GetResultOfQuery io item t))"
  by (auto simp: destroy_defs keeps5_def WriteLoop_GetResultOfQuery_def coalesced_record_action stable_record_action
        stable_refl Reply_set_exception_def
      split: option.splits exn.splits prod.splits sum.splits if_splits dest!: WriteOne_result(2))

lemma keeps5_b4: "keeps5 t (snd (WriteLoop_GetResultsOfQueries io item t))"
  by (auto simp: destroy_defs keeps5_def WriteLoop_GetResultsOfQueries_def coalesced_snoc stable_append
        stable_refl Replies_set_exception_def
      split: option.splits exn.splits prod.splits sum.splits if_splits dest!: WriteAll_result)

lemma keeps5_item: "keeps5 s (snd (WriteLoop_item io item s))"
proof (rule WriteLoop_item_rel)
  show "\<And>t. keeps5 t t" by (simp add: keeps5_def stable_refl)
  show "\<And>a b c. keeps5 a b \<Longrightarrow> keeps5 b c \<Longrightarrow> keeps5 a c"
    using stable_trans by (auto simp: keeps5_def)
qed (rule keeps5_b1 keeps5_b2 keeps5_b3 keeps5_b4)+

lemma WriteLoop_step_cases:
  assumes "P s"
    and "P (s\<lparr>WriteLoop_pc := WriteAtWhile\<rparr>)"
    and "P (s\<lparr>QueuedWrites := False, WriteLoop_pc := WriteWaiting\<rparr>)"
    and "\<And>item rest f t. Writes s = item # rest \<Longrightarrow> WriteLoop_item io item (s\<lparr>Writes := rest\<rparr>) = (f, t)
           \<Longrightarrow> P t \<and> (\<forall>ex. P (t\<lparr>WriteLoop_pc := WriteExited ex\<rparr>))"
  shows "P (WriteLoop_step io s)"
proof (cases "WriteLoop_pc s")
  case WriteWaiting
  then show ?thesis using assms(1,2) by (simp add: WriteLoop_step_def)
next
  case (WriteExited ex)
  then show ?thesis using assms(1) by (simp add: WriteLoop_step_def)
next
  case WriteAtWhile
  show ?thesis
  proof (cases "Writes s")
    case Nil
    then show ?thesis using assms(3) WriteAtWhile by (simp add: WriteLoop_step_def)
  next
    case (Cons item rest)
    obtain f t where e: "WriteLoop_item io item (s\<lparr>Writes := rest\<rparr>) = (f, t)" by fastforce
    from assms(4) [OF Cons e] show ?thesis
      using WriteAtWhile Cons e by (cases f) (simp_all add: WriteLoop_step_def)
  qed
qed

lemma run_invariant:
  assumes "P s" and "\<And>t ev. P t \<Longrightarrow> P (fire io ev t)"
  shows "P (run io evs s)"
  using assms(1) by (induction evs arbitrary: s) (simp_all add: assms(2))

lemma coalesced_writer:
  "coalesced (FutureResponseActions s) \<Longrightarrow> coalesced (FutureResponseActions (WriteLoop_step io s))"
proof (rule WriteLoop_step_cases [where P = "\<lambda>t. coalesced (FutureResponseActions t)"])
  fix item rest f t
  assume c: "coalesced (FutureResponseActions s)"
    and "Writes s = item # rest" and e: "WriteLoop_item io item (s\<lparr>Writes := rest\<rparr>) = (f, t)"
  show "coalesced (FutureResponseActions t) \<and> (\<forall>ex. coalesced (FutureResponseActions (t\<lparr>WriteLoop_pc := WriteExited ex\<rparr>)))"
    using keeps5_item [of "s\<lparr>Writes := rest\<rparr>" io item] e c by (simp add: keeps5_def)
qed simp_all

lemma coalesced_reader:
  "coalesced (FutureResponseActions s) \<Longrightarrow> coalesced (FutureResponseActions (ReadLoop_step io s))"
  by (cases "ReadLoop_pc s")
     (auto simp: reader_defs dest: coalesced_tl
       split: list.splits ResponseAction.splits sum.splits exn.splits if_splits)

lemma coalesced_fire:
  "coalesced (FutureResponseActions s) \<Longrightarrow> coalesced (FutureResponseActions (fire io ev s))"
  by (cases ev) (auto simp: coalesced_writer coalesced_reader, auto simp: api_defs split: option.splits exn.splits prod.splits)

lemma coalesced_run:
  "coalesced (FutureResponseActions (run io evs (RedisConnection_new host port path)))"
  by (rule run_invariant) (simp_all add: coalesced_fire RedisConnection_new_def)

lemma WriteAll_success:
  "(\<forall>j<length qs. write_result io (WriteCalls s + j) = None) \<Longrightarrow>
   WriteAll io qs i s = (None, i + length qs, s\<lparr>WriteCalls := WriteCalls s + length qs, Sent := Sent s @ qs\<rparr>)"
proof (induction qs arbitrary: i s)
  case Nil
  then show ?case by simp
next
  case (Cons q qs)
  have h0: "write_result io (WriteCalls s) = None" using Cons.prems by (metis add.right_neutral length_greater_0_conv list.distinct(1))
  let ?s1 = "s\<lparr>WriteCalls := Suc (WriteCalls s), Sent := Sent s @ [q]\<rparr>"
  have w: "WriteOne io q s = (None, ?s1)" using h0 by (simp add: WriteOne_def)
  have "\<forall>j<length qs. write_result io (WriteCalls ?s1 + j) = None"
    using Cons.prems by (auto dest: spec [of _ "Suc j" for j])
  from Cons.IH [OF this, of "Suc i"] show ?case using w by simp
qed

lemma WriteAll_failure:
  "k < length qs \<Longrightarrow> (\<forall>j<k. write_result io (WriteCalls s + j) = None) \<Longrightarrow>
   write_result io (WriteCalls s + k) = Some ex \<Longrightarrow>
   WriteAll io qs i s = (Some ex, i + k, s\<lparr>WriteCalls := WriteCalls s + Suc k, Sent := Sent s @ take k qs\<rparr>)"
proof (induction qs arbitrary: i s k)
  case Nil
  then show ?case by simp
next
  case (Cons q qs)
  show ?case
  proof (cases k)
    case 0
    then show ?thesis using Cons.prems by (simp add: WriteOne_def)
  next
    case (Suc k')
    have h0: "write_result io (WriteCalls s) = None" using Cons.prems(2) Suc by (metis add.right_neutral zero_less_Suc)
    let ?s1 = "s\<lparr>WriteCalls := Suc (WriteCalls s), Sent := Sent s @ [q]\<rparr>"
    have w: "WriteOne io q s = (None, ?s1)" using h0 by (simp add: WriteOne_def)
    have a: "k' < length qs" using Cons.prems(1) Suc by simp
    have b: "\<forall>j<k'. write_result io (WriteCalls ?s1 + j) = None"
      using Cons.prems(2) Suc by (auto dest: spec [of _ "Suc j" for j])
    have c: "write_result io (WriteCalls ?s1 + k') = Some ex" using Cons.prems(3) Suc by simp
    from Cons.IH [OF a b c, of "Suc i"] show ?thesis using w Suc by simp
  qed
qed

lemma item_simps [simp]:
  "ItemFireAndForgetQuery (FireSingle q) = Some q" "ItemFireAndForgetQueries (FireSingle q) = None"
  "ItemGetResultOfQuery (FireSingle q) = None" "ItemGetResultsOfQueries (FireSingle q) = None"
  "ItemFireAndForgetQuery (FireBulk qs) = None" "ItemFireAndForgetQueries (FireBulk qs) = Some qs"
  "ItemGetResultOfQuery (FireBulk qs) = None" "ItemGetResultsOfQueries (FireBulk qs) = None"
  "ItemFireAndForgetQuery (AwaitSingle q p) = None" "ItemFireAndForgetQueries (AwaitSingle q p) = None"
  "ItemGetResultOfQuery (AwaitSingle q p) = Some (q, p)" "ItemGetResultsOfQueries (AwaitSingle q p) = None"
  "ItemFireAndForgetQuery (AwaitBulk qs p) = None" "ItemFireAndForgetQueries (AwaitBulk qs p) = None"
  "ItemGetResultOfQuery (AwaitBulk qs p) = None" "ItemGetResultsOfQueries (AwaitBulk qs p) = Some (qs, p)"
  by (simp_all add: FireSingle_def FireBulk_def AwaitSingle_def AwaitBulk_def)

lemma WriteLoop_item_FireSingle:
  "WriteLoop_item io (FireSingle q) s = (case WriteLoop_FireAndForgetQuery io (FireSingle q) s of
      (Next, s1) \<Rightarrow> (Next, s1) | (Continue, s1) \<Rightarrow> (Continue, s1) | (Throw ex, s1) \<Rightarrow> (Throw ex, s1))"
  by (simp add: destroy_defs WriteLoop_item_def WriteLoop_FireAndForgetQueries_def WriteLoop_GetResultOfQuery_def
      WriteLoop_GetResultsOfQueries_def split: prod.splits flow.splits)

lemma WriteLoop_item_FireBulk:
  "WriteLoop_item io (FireBulk qs) s = (case WriteLoop_FireAndForgetQueries io (FireBulk qs) s of
      (Next, s1) \<Rightarrow> (Next, s1) | (Continue, s1) \<Rightarrow> (Continue, s1) | (Throw ex, s1) \<Rightarrow> (Throw ex, s1))"
  by (simp add: destroy_defs WriteLoop_item_def WriteLoop_FireAndForgetQuery_def WriteLoop_GetResultOfQuery_def
      WriteLoop_GetResultsOfQueries_def split: prod.splits flow.splits)

lemma WriteLoop_item_AwaitSingle:
  "WriteLoop_item io (AwaitSingle q p) s = (case WriteLoop_GetResultOfQuery io (AwaitSingle q p) s of
      (Next, s1) \<Rightarrow> (Next, s1) | (Continue, s1) \<Rightarrow> (Continue, s1) | (Throw ex, s1) \<Rightarrow> (Throw ex, s1))"
  by (simp add: destroy_defs WriteLoop_item_def WriteLoop_FireAndForgetQuery_def WriteLoop_FireAndForgetQueries_def
      WriteLoop_GetResultsOfQueries_def split: prod.splits flow.splits)

lemma WriteLoop_item_AwaitBulk:
  "WriteLoop_item io (AwaitBulk qs p) s = WriteLoop_GetResultsOfQueries io (AwaitBulk qs p) s"
  by (simp add: destroy_defs WriteLoop_item_def WriteLoop_FireAndForgetQuery_def WriteLoop_FireAndForgetQueries_def
      WriteLoop_GetResultOfQuery_def)

lemma AwaitBulk_success:
  assumes "\<forall>j<length qs. write_result io (WriteCalls s + j) = None"
  shows "WriteLoop_item io (AwaitBulk qs p) s =
    (Next, s\<lparr>WriteCalls := WriteCalls s + length qs, Sent := Sent s @ qs,
        RepliesPromises := RepliesPromises s @ [p],
        FutureResponseActions := FutureResponseActions s @ [\<lparr>Amount = length qs, Action = DeliverBulk\<rparr>],
        QueuedReads := True\<rparr>)"
  by (simp add: destroy_defs WriteLoop_item_AwaitBulk WriteLoop_GetResultsOfQueries_def WriteAll_success [OF assms])

lemma stable_item: "stable (FutureResponseActions s) (FutureResponseActions (snd (WriteLoop_item io item s)))"
  using keeps5_item [of s io item] by (simp add: keeps5_def)

text \<open>
  Claim C5. (1) In every reachable state no two neighbours in \<open>FutureResponseActions\<close>
  are both Ignore or both Deliver; (2) one pass of the Writer over any item keeps it so.
  (3) An item of \<open>GetResultsOfQueries\<close> whose queries are all sent appends a new
  DeliverBulk entry, whatever the last entry is. (4) A DeliverBulk entry already in the
  queue keeps its place and its amount when the Writer handles any further item.
\<close>

theorem C5_coalescing:
  "coalesced (FutureResponseActions (run io evs (RedisConnection_new host port path)))
   \<and> (coalesced (FutureResponseActions s) \<longrightarrow>
        coalesced (FutureResponseActions (snd (WriteLoop_item io item s))))
   \<and> ((\<forall>j<length queries. write_result io (WriteCalls s + j) = None) \<longrightarrow>
        FutureResponseActions (snd (WriteLoop_item io (AwaitBulk queries p) s))
          = FutureResponseActions s @ [\<lparr>Amount = length queries, Action = DeliverBulk\<rparr>])
   \<and> (k < length (FutureResponseActions s) \<and> Action (FutureResponseActions s ! k) = DeliverBulk \<longrightarrow>
        k < length (FutureResponseActions (snd (WriteLoop_item io item s)))
        \<and> FutureResponseActions (snd (WriteLoop_item io item s)) ! k = FutureResponseActions s ! k)"
proof (intro conjI impI)
  show "coalesced (FutureResponseActions (run io evs (RedisConnection_new host port path)))"
    by (rule coalesced_run)
next
  assume "coalesced (FutureResponseActions s)"
  then show "coalesced (FutureResponseActions (snd (WriteLoop_item io item s)))"
    using keeps5_item [of s io item] by (simp add: keeps5_def)
next
  assume "\<forall>j<length queries. write_result io (WriteCalls s + j) = None"
  then show "FutureResponseActions (snd (WriteLoop_item io (AwaitBulk queries p) s))
          = FutureResponseActions s @ [\<lparr>Amount = length queries, Action = DeliverBulk\<rparr>]"
    by (simp add: AwaitBulk_success)
next
  assume h: "k < length (FutureResponseActions s) \<and> Action (FutureResponseActions s ! k) = DeliverBulk"
  show "k < length (FutureResponseActions (snd (WriteLoop_item io item s)))"
    using h stable_item [of s io item] by (simp add: stable_def)
  show "FutureResponseActions (snd (WriteLoop_item io item s)) ! k = FutureResponseActions s ! k"
    using h stable_item [of s io item] by (simp add: stable_def)
qed

theorem C5_witness:
  "coalesced (FutureResponseActions state5)
   \<and> coalesced (FutureResponseActions (snd (WriteLoop_item io_ok (FireSingle [''PING'']) state5)))
   \<and> FutureResponseActions (snd (WriteLoop_item io_ok (AwaitBulk [[''PING''], [''PING'']] 9) state5))
       = [\<lparr>Amount = 1, Action = Ignore\<rparr>, \<lparr>Amount = 1, Action = Deliver\<rparr>,
          \<lparr>Amount = 2, Action = DeliverBulk\<rparr>, \<lparr>Amount = 2, Action = DeliverBulk\<rparr>]
   \<and> FutureResponseActions (snd (WriteLoop_item io_ok (FireSingle [''PING'']) state5)) ! 2
       = \<lparr>Amount = 2, Action = DeliverBulk\<rparr>"
proof -
  have fa: "FutureResponseActions state5
     = [\<lparr>Amount = 1, Action = Ignore\<rparr>, \<lparr>Amount = 1, Action = Deliver\<rparr>, \<lparr>Amount = 2, Action = DeliverBulk\<rparr>]"
    by code_simp
  have c: "coalesced (FutureResponseActions state5)"
    by (simp add: fa)
  have sends: "\<forall>j<length [[''PING''], [''PING'']]. write_result io_ok (WriteCalls state5 + j) = None"
    by (simp add: io_ok_def)
  have bulk: "2 < length (FutureResponseActions state5) \<and> Action (FutureResponseActions state5 ! 2) = DeliverBulk"
    by (simp add: fa)
  show ?thesis
    using C5_coalescing [of io_ok run5 "''localhost''" 6379 "[]" state5 "FireSingle [''PING'']"
        "[[''PING''], [''PING'']]" 9 2] c sends bulk
    by (simp add: fa)
qed

subsection \<open>C9: amounts\<close>

lemma positive_record_action:
  assumes "positive fas" "0 < n"
  shows "positive (record_action n a fas)"
proof (cases fas rule: rev_cases)
  case Nil
  then show ?thesis using assms by (simp add: record_action_def positive_def)
next
  case (snoc xs x)
  then show ?thesis using assms by (auto simp: record_action_def positive_def)
qed

lemma writer_frame_b1: "writer_frame t (snd (WriteLoop_FireAndForgetQuery io item t))"
  by (auto simp: destroy_defs writer_frame_def WriteLoop_FireAndForgetQuery_def Log_def
      split: option.splits exn.splits prod.splits dest!: WriteOne_result(2))

lemma writer_frame_b2: "writer_frame t (snd (WriteLoop_FireAndForgetQueries io item t))"
  by (auto simp: destroy_defs writer_frame_def WriteLoop_FireAndForgetQueries_def Log_def
      split: option.splits exn.splits prod.splits dest!: WriteAll_result)

lemma writer_frame_b3: "writer_frame t (snd (WriteLoop_GetResultOfQuery io item t))"
  by (auto simp: destroy_defs writer_frame_def WriteLoop_GetResultOfQuery_def Reply_set_exception_def
      split: option.splits exn.splits prod.splits sum.splits if_splits dest!: WriteOne_result(2))

lemma writer_frame_b4: "writer_frame t (snd (WriteLoop_GetResultsOfQueries io item t))"
  by (auto simp: destroy_defs writer_frame_def WriteLoop_GetResultsOfQueries_def Replies_set_exception_def
      split: option.splits exn.splits prod.splits sum.splits if_splits dest!: WriteAll_result)

lemma writer_frame_item: "writer_frame s (snd (WriteLoop_item io item s))"
  by (rule WriteLoop_item_rel)
     (auto simp: writer_frame_b1 writer_frame_b2 writer_frame_b3 writer_frame_b4, auto simp: writer_frame_def)

lemma positive_b1:
  "positive (FutureResponseActions t) \<longrightarrow>
   positive (FutureResponseActions (snd (WriteLoop_FireAndForgetQuery io item t)))"
  by (auto simp: destroy_defs WriteLoop_FireAndForgetQuery_def positive_record_action Log_def
      split: option.splits exn.splits prod.splits dest!: WriteOne_result(2))

lemma positive_b2:
  "nonempty_item item \<Longrightarrow> positive (FutureResponseActions t) \<longrightarrow>
   positive (FutureResponseActions (snd (WriteLoop_FireAndForgetQueries io item t)))"
  by (auto simp: destroy_defs WriteLoop_FireAndForgetQueries_def positive_record_action Log_def nonempty_item_def
      split: option.splits exn.splits prod.splits dest!: WriteAll_result)

lemma positive_b3:
  "positive (FutureResponseActions t) \<longrightarrow>
   positive (FutureResponseActions (snd (WriteLoop_GetResultOfQuery io item t)))"
  by (auto simp: destroy_defs WriteLoop_GetResultOfQuery_def positive_record_action Reply_set_exception_def
      split: option.splits exn.splits prod.splits sum.splits if_splits dest!: WriteOne_result(2))

lemma positive_b4:
  "nonempty_item item \<Longrightarrow> positive (FutureResponseActions t) \<longrightarrow>
   positive (FutureResponseActions (snd (WriteLoop_GetResultsOfQueries io item t)))"
  by (auto simp: destroy_defs WriteLoop_GetResultsOfQueries_def Replies_set_exception_def nonempty_item_def positive_def
      split: option.splits exn.splits prod.splits sum.splits if_splits dest!: WriteAll_result)

lemma positive_item:
  assumes "nonempty_item item"
  shows "positive (FutureResponseActions s) \<longrightarrow> positive (FutureResponseActions (snd (WriteLoop_item io item s)))"
  by (rule WriteLoop_item_rel
       [where R = "\<lambda>a b. positive (FutureResponseActions a) \<longrightarrow> positive (FutureResponseActions b)"])
     (simp_all add: positive_b1 positive_b2 [OF assms] positive_b3 positive_b4 [OF assms])

lemma inv9_writer: "inv9 s \<Longrightarrow> inv9 (WriteLoop_step io s)"
proof (rule WriteLoop_step_cases [where P = inv9])
  fix item rest f t
  assume i: "inv9 s" and w: "Writes s = item # rest"
    and e: "WriteLoop_item io item (s\<lparr>Writes := rest\<rparr>) = (f, t)"
  have ne: "nonempty_item item" using i w by (simp add: inv9_def)
  have p: "positive (FutureResponseActions t)"
    using positive_item [OF ne, of "s\<lparr>Writes := rest\<rparr>" io] e i by (simp add: inv9_def)
  have "Writes t = rest"
    using writer_frame_item [of "s\<lparr>Writes := rest\<rparr>" io item] e by (simp add: writer_frame_def)
  then show "inv9 t \<and> (\<forall>ex. inv9 (t\<lparr>WriteLoop_pc := WriteExited ex\<rparr>))"
    using p i w by (simp add: inv9_def)
qed (simp_all add: inv9_def)

lemma inv9_reader: "inv9 s \<Longrightarrow> inv9 (ReadLoop_step io s)"
  by (cases "ReadLoop_pc s")
     (auto simp: inv9_def positive_def reader_defs
       split: list.splits ResponseAction.splits sum.splits exn.splits if_splits)

lemma inv9_fire: "inv9 s \<Longrightarrow> no_empty_bulk ev \<Longrightarrow> inv9 (fire io ev s)"
  by (cases ev) (auto simp: inv9_writer inv9_reader,
      auto simp: inv9_def api_defs no_empty_bulk_def nonempty_item_def split: option.splits exn.splits prod.splits)

lemma inv9_run: "inv9 s \<Longrightarrow> \<forall>ev\<in>set evs. no_empty_bulk ev \<Longrightarrow> inv9 (run io evs s)"
  by (induction evs arbitrary: s) (simp_all add: inv9_fire)

lemma FireBulk_success:
  assumes "\<forall>j<length qs. write_result io (WriteCalls s + j) = None"
  shows "WriteLoop_item io (FireBulk qs) s =
    (Next, s\<lparr>WriteCalls := WriteCalls s + length qs, Sent := Sent s @ qs,
        FutureResponseActions := record_action (length qs) Ignore (FutureResponseActions s),
        QueuedReads := True\<rparr>)"
  by (simp add: destroy_defs WriteLoop_item_FireBulk WriteLoop_FireAndForgetQueries_def WriteAll_success [OF assms])

text \<open>
  Claim C9, as amended. (1) In every state reached by a sequence of events in which no
  bulk submission has an empty list of queries, every entry of \<open>FutureResponseActions\<close>
  has a positive amount. (2) An item of \<open>GetResultsOfQueries\<close> with no queries appends
  a DeliverBulk entry of amount zero; (3) an item of \<open>FireAndForgetQueries\<close> with no
  queries appends an Ignore entry of amount zero unless the last entry is an Ignore.
\<close>

theorem C9_amounts_positive:
  "((\<forall>ev\<in>set evs. no_empty_bulk ev) \<longrightarrow>
      positive (FutureResponseActions (run io evs (RedisConnection_new host port path))))
   \<and> FutureResponseActions (snd (WriteLoop_item io (AwaitBulk [] p) s))
       = FutureResponseActions s @ [\<lparr>Amount = 0, Action = DeliverBulk\<rparr>]
   \<and> (FutureResponseActions s = [] \<or> Action (last (FutureResponseActions s)) \<noteq> Ignore \<longrightarrow>
       FutureResponseActions (snd (WriteLoop_item io (FireBulk []) s))
         = FutureResponseActions s @ [\<lparr>Amount = 0, Action = Ignore\<rparr>])"
proof (intro conjI impI)
  assume "\<forall>ev\<in>set evs. no_empty_bulk ev"
  then have "inv9 (run io evs (RedisConnection_new host port path))"
    by (intro inv9_run) (simp_all add: inv9_def positive_def RedisConnection_new_def)
  then show "positive (FutureResponseActions (run io evs (RedisConnection_new host port path)))"
    by (simp add: inv9_def)
next
  show "FutureResponseActions (snd (WriteLoop_item io (AwaitBulk [] p) s))
       = FutureResponseActions s @ [\<lparr>Amount = 0, Action = DeliverBulk\<rparr>]"
    by (simp add: AwaitBulk_success)
next
  assume "FutureResponseActions s = [] \<or> Action (last (FutureResponseActions s)) \<noteq> Ignore"
  then show "FutureResponseActions (snd (WriteLoop_item io (FireBulk []) s))
         = FutureResponseActions s @ [\<lparr>Amount = 0, Action = Ignore\<rparr>]"
    by (auto simp: FireBulk_success record_action_def)
qed

theorem C9_witness:
  "positive (FutureResponseActions state5)
   \<and> FutureResponseActions (snd (WriteLoop_item io_ok (AwaitBulk [] 7) state5))
       = [\<lparr>Amount = 1, Action = Ignore\<rparr>, \<lparr>Amount = 1, Action = Deliver\<rparr>,
          \<lparr>Amount = 2, Action = DeliverBulk\<rparr>, \<lparr>Amount = 0, Action = DeliverBulk\<rparr>]
   \<and> FutureResponseActions (snd (WriteLoop_item io_ok (FireBulk []) state5))
       = [\<lparr>Amount = 1, Action = Ignore\<rparr>, \<lparr>Amount = 1, Action = Deliver\<rparr>,
          \<lparr>Amount = 2, Action = DeliverBulk\<rparr>, \<lparr>Amount = 0, Action = Ignore\<rparr>]"
proof -
  have evs: "\<forall>ev\<in>set run5. no_empty_bulk ev"
    by (simp add: run5_def no_empty_bulk_def)
  have fa: "FutureResponseActions state5
     = [\<lparr>Amount = 1, Action = Ignore\<rparr>, \<lparr>Amount = 1, Action = Deliver\<rparr>, \<lparr>Amount = 2, Action = DeliverBulk\<rparr>]"
    by code_simp
  have tail: "FutureResponseActions state5 = [] \<or> Action (last (FutureResponseActions state5)) \<noteq> Ignore"
    by (simp add: fa)
  show ?thesis
    using C9_amounts_positive [of run5 io_ok "''localhost''" 6379 "[]" 7 state5, folded state5_def] evs tail
    by (simp add: fa)
qed

theorem C9_counterexample:
  "FutureResponseActions (run io_ok run9 (RedisConnection_new ''localhost'' 6379 []))
     = [\<lparr>Amount = 0, Action = Ignore\<rparr>, \<lparr>Amount = 0, Action = DeliverBulk\<rparr>]
   \<and> \<not> positive (FutureResponseActions (run io_ok run9 (RedisConnection_new ''localhost'' 6379 [])))"
proof -
  have fa: "FutureResponseActions (run io_ok run9 (RedisConnection_new ''localhost'' 6379 []))
     = [\<lparr>Amount = 0, Action = Ignore\<rparr>, \<lparr>Amount = 0, Action = DeliverBulk\<rparr>]"
    by code_simp
  show ?thesis by (simp add: fa positive_def)
qed

subsection \<open>C8: Start\<close>

lemma lifecycle_writer:
  "Spawned (WriteLoop_step io s) = Spawned s \<and> Started (WriteLoop_step io s) = Started s
   \<and> Connecting (WriteLoop_step io s) = Connecting s \<and> Connected (WriteLoop_step io s) = Connected s
   \<and> ConnectCalls (WriteLoop_step io s) = ConnectCalls s"
proof (rule WriteLoop_step_cases [where P = "\<lambda>t. Spawned t = Spawned s \<and> Started t = Started s
   \<and> Connecting t = Connecting s \<and> Connected t = Connected s \<and> ConnectCalls t = ConnectCalls s"])
  fix item rest f t
  assume "Writes s = item # rest" and e: "WriteLoop_item io item (s\<lparr>Writes := rest\<rparr>) = (f, t)"
  show "(Spawned t = Spawned s \<and> Started t = Started s \<and> Connecting t = Connecting s
      \<and> Connected t = Connected s \<and> ConnectCalls t = ConnectCalls s)
    \<and> (\<forall>ex. Spawned (t\<lparr>WriteLoop_pc := WriteExited ex\<rparr>) = Spawned s
      \<and> Started (t\<lparr>WriteLoop_pc := WriteExited ex\<rparr>) = Started s
      \<and> Connecting (t\<lparr>WriteLoop_pc := WriteExited ex\<rparr>) = Connecting s
      \<and> Connected (t\<lparr>WriteLoop_pc := WriteExited ex\<rparr>) = Connected s
      \<and> ConnectCalls (t\<lparr>WriteLoop_pc := WriteExited ex\<rparr>) = ConnectCalls s)"
    using writer_frame_item [of "s\<lparr>Writes := rest\<rparr>" io item] e by (simp add: writer_frame_def)
qed simp_all

lemma lifecycle_reader:
  "Spawned (ReadLoop_step io s) = Spawned s \<and> Started (ReadLoop_step io s) = Started s
   \<and> Connecting (ReadLoop_step io s) = Connecting s \<and> Connected (ReadLoop_step io s) = Connected s
   \<and> ConnectCalls (ReadLoop_step io s) = ConnectCalls s"
  by (cases "ReadLoop_pc s")
     (auto simp: reader_defs split: list.splits ResponseAction.splits sum.splits exn.splits if_splits)

lemma lifecycle_Connect:
  "Spawned (snd (Connect io s)) = Spawned s \<and> Started (snd (Connect io s)) = Started s
   \<and> ConnectCalls (snd (Connect io s)) = Suc (ConnectCalls s)
   \<and> Connected (snd (Connect io s)) = (Connected s \<or> connect_result io (ConnectCalls s) = None)
   \<and> Connecting (snd (Connect io s)) = (Connected s \<or> connect_result io (ConnectCalls s) = None)"
  by (simp add: Connect_def Log_def Let_def split: option.splits exn.splits)

lemma lifecycle_api:
  "Spawned (FireAndForgetQuery q s) = Spawned s \<and> Started (FireAndForgetQuery q s) = Started s
   \<and> Connecting (FireAndForgetQuery q s) = Connecting s \<and> Connected (FireAndForgetQuery q s) = Connected s
   \<and> ConnectCalls (FireAndForgetQuery q s) = ConnectCalls s"
  "Spawned (FireAndForgetQueries qs s) = Spawned s \<and> Started (FireAndForgetQueries qs s) = Started s
   \<and> Connecting (FireAndForgetQueries qs s) = Connecting s \<and> Connected (FireAndForgetQueries qs s) = Connected s
   \<and> ConnectCalls (FireAndForgetQueries qs s) = ConnectCalls s"
  "Spawned (snd (GetResultOfQuery q s)) = Spawned s \<and> Started (snd (GetResultOfQuery q s)) = Started s
   \<and> Connecting (snd (GetResultOfQuery q s)) = Connecting s \<and> Connected (snd (GetResultOfQuery q s)) = Connected s
   \<and> ConnectCalls (snd (GetResultOfQuery q s)) = ConnectCalls s"
  "Spawned (snd (GetResultsOfQueries qs s)) = Spawned s \<and> Started (snd (GetResultsOfQueries qs s)) = Started s
   \<and> Connecting (snd (GetResultsOfQueries qs s)) = Connecting s \<and> Connected (snd (GetResultsOfQueries qs s)) = Connected s
   \<and> ConnectCalls (snd (GetResultsOfQueries qs s)) = ConnectCalls s"
  by (simp_all add: FireAndForgetQuery_def FireAndForgetQueries_shape GetResultOfQuery_def
      GetResultsOfQueries_shape Log_def Let_def)

lemma inv8_Start: "inv8 s \<Longrightarrow> inv8 (Start s)"
  by (cases "Started s"; cases "Connecting s")
     (simp_all add: inv8_def spawned_def connect_in_flight_def Start_def Let_def)

lemma inv8_Connect:
  assumes "inv8 s" and "ConnectCalls s < count_list (Spawned s) ConnectCoroutine"
  shows "inv8 (snd (Connect io s))"
  using assms lifecycle_Connect [of io s]
  by (simp add: inv8_def spawned_def connect_in_flight_def)

lemma inv8_fire: "inv8 s \<Longrightarrow> inv8 (fire io ev s)"
proof (cases ev)
  case RunWriteLoop
  assume "inv8 s"
  then show ?thesis using RunWriteLoop lifecycle_writer [of io s]
    by (simp add: inv8_def spawned_def connect_in_flight_def)
next
  case RunReadLoop
  assume "inv8 s"
  then show ?thesis using RunReadLoop lifecycle_reader [of io s]
    by (simp add: inv8_def spawned_def connect_in_flight_def)
next
  case CallStart
  assume "inv8 s"
  then show ?thesis using CallStart by (simp add: inv8_Start)
next
  case RunConnect
  assume "inv8 s"
  then show ?thesis using RunConnect by (simp add: inv8_Connect)
next
  case (CallFireAndForgetQuery q)
  assume "inv8 s"
  then show ?thesis using CallFireAndForgetQuery lifecycle_api(1) [of q s]
    by (simp add: inv8_def spawned_def connect_in_flight_def)
next
  case (CallFireAndForgetQueries qs)
  assume "inv8 s"
  then show ?thesis using CallFireAndForgetQueries lifecycle_api(2) [of qs s]
    by (simp add: inv8_def spawned_def connect_in_flight_def)
next
  case (CallGetResultOfQuery q)
  assume "inv8 s"
  then show ?thesis using CallGetResultOfQuery lifecycle_api(3) [of q s]
    by (simp add: inv8_def spawned_def connect_in_flight_def)
next
  case (CallGetResultsOfQueries qs)
  assume "inv8 s"
  then show ?thesis using CallGetResultsOfQueries lifecycle_api(4) [of qs s]
    by (simp add: inv8_def spawned_def connect_in_flight_def)
qed

lemma inv8_run: "inv8 (run io evs (RedisConnection_new host port path))"
  by (rule run_invariant)
     (simp_all add: inv8_fire, simp add: inv8_def spawned_def connect_in_flight_def RedisConnection_new_def)

lemma Started_fire: "Started (fire io ev s) = (Started s \<or> ev = CallStart)"
proof (cases ev)
  case RunWriteLoop
  then show ?thesis using lifecycle_writer [of io s] by simp
next
  case RunReadLoop
  then show ?thesis using lifecycle_reader [of io s] by simp
next
  case CallStart
  then show ?thesis by (simp add: Start_def Let_def)
next
  case RunConnect
  then show ?thesis using lifecycle_Connect [of io s] by simp
qed (simp_all add: lifecycle_api)

lemma Started_run: "Started (run io evs s) = (Started s \<or> CallStart \<in> set evs)"
  by (induction evs arbitrary: s) (auto simp: Started_fire)

text \<open>
  Claim C8, as amended. After any sequence of events on a fresh connection: (1) the
  Reader Loop and the Writer Loop have each been spawned once if \<open>Start\<close> has been
  called, and never otherwise; (2) a further call of \<open>Start\<close> spawns no loop; (3) it
  spawns \<open>Connect\<close> exactly when no connect attempt is in flight and the connection is
  not connected.
\<close>

theorem C8_start_spawns:
  "spawned ReadLoopCoroutine (run io evs (RedisConnection_new host port path))
      = (if CallStart \<in> set evs then 1 else 0)
   \<and> spawned WriteLoopCoroutine (run io evs (RedisConnection_new host port path))
      = (if CallStart \<in> set evs then 1 else 0)
   \<and> spawned ReadLoopCoroutine (Start (run io evs (RedisConnection_new host port path))) = 1
   \<and> spawned WriteLoopCoroutine (Start (run io evs (RedisConnection_new host port path))) = 1
   \<and> spawned ConnectCoroutine (Start (run io evs (RedisConnection_new host port path)))
      = spawned ConnectCoroutine (run io evs (RedisConnection_new host port path))
        + (if connect_in_flight (run io evs (RedisConnection_new host port path))
              \<or> Connected (run io evs (RedisConnection_new host port path)) then 0 else 1)"
proof -
  let ?s = "run io evs (RedisConnection_new host port path)"
  have i: "inv8 ?s" by (rule inv8_run)
  have st: "Started ?s = (CallStart \<in> set evs)"
    by (simp add: Started_run RedisConnection_new_def)
  show ?thesis
    using i st
    by (cases "Started ?s"; cases "Connecting ?s")
       (simp_all add: inv8_def spawned_def connect_in_flight_def Start_def Let_def)
qed

theorem C8_witness:
  "spawned ReadLoopCoroutine (run io_refused [CallStart, RunConnect, CallStart] (RedisConnection_new ''localhost'' 6379 [])) = 1
   \<and> spawned WriteLoopCoroutine (run io_refused [CallStart, RunConnect, CallStart] (RedisConnection_new ''localhost'' 6379 [])) = 1
   \<and> spawned ConnectCoroutine (Start (run io_ok [CallStart, RunConnect] (RedisConnection_new ''localhost'' 6379 []))) = 1
   \<and> spawned ConnectCoroutine (Start (run io_ok [CallStart] (RedisConnection_new ''localhost'' 6379 []))) = 1
   \<and> spawned ConnectCoroutine (Start (run io_refused [CallStart, RunConnect] (RedisConnection_new ''localhost'' 6379 []))) = 2"
proof -
  have a: "spawned ConnectCoroutine (run io_ok [CallStart, RunConnect] (RedisConnection_new ''localhost'' 6379 [])) = 1"
      "Connected (run io_ok [CallStart, RunConnect] (RedisConnection_new ''localhost'' 6379 []))"
    by code_simp+
  have b: "spawned ConnectCoroutine (run io_ok [CallStart] (RedisConnection_new ''localhost'' 6379 [])) = 1"
      "connect_in_flight (run io_ok [CallStart] (RedisConnection_new ''localhost'' 6379 []))"
    by code_simp+
  have c: "spawned ConnectCoroutine (run io_refused [CallStart, RunConnect] (RedisConnection_new ''localhost'' 6379 [])) = 1"
      "\<not> connect_in_flight (run io_refused [CallStart, RunConnect] (RedisConnection_new ''localhost'' 6379 []))"
      "\<not> Connected (run io_refused [CallStart, RunConnect] (RedisConnection_new ''localhost'' 6379 []))"
    by code_simp+
  show ?thesis
    using C8_start_spawns [of io_refused "[CallStart, RunConnect, CallStart]" "''localhost''" 6379 "[]"]
      C8_start_spawns [of io_ok "[CallStart, RunConnect]" "''localhost''" 6379 "[]"]
      C8_start_spawns [of io_ok "[CallStart]" "''localhost''" 6379 "[]"]
      C8_start_spawns [of io_refused "[CallStart, RunConnect]" "''localhost''" 6379 "[]"]
      a b c
    by simp
qed

theorem C8_counterexample:
  "spawned ConnectCoroutine
     (run io_refused [CallStart, RunConnect, CallStart] (RedisConnection_new ''localhost'' 6379 [])) = 2"
  by code_simp

subsection \<open>C4: a failed send of an awaited query\<close>

lemma AwaitSingle_failure:
  assumes "write_result io (WriteCalls s) = Some ex" "ex \<noteq> forced_unwind" "ReplyStates s p = Pending"
  shows "WriteLoop_item io (AwaitSingle q p) s =
    (Continue, s\<lparr>WriteCalls := Suc (WriteCalls s), ReplyStates := (ReplyStates s)(p := HasException ex)\<rparr>)"
  using assms
  by (cases ex)
     (simp_all add: destroy_defs WriteLoop_item_AwaitSingle WriteLoop_GetResultOfQuery_def WriteOne_def
        Reply_set_exception_def)

text \<open>
  Claim C4. When \<open>WriteOne\<close> fails for an item of \<open>GetResultOfQuery\<close> with an
  exception other than \<open>forced_unwind\<close>, the item's promise holds that exception, the
  loop goes on with the next item, and \<open>FutureResponseActions\<close>, \<open>ReplyPromises\<close> and
  \<open>QueuedReads\<close> are as before; indeed nothing but the promise's state and the count
  of transport calls has changed. (The promise of a submitted item is still pending.)
\<close>

theorem C4_await_single_send_failure:
  assumes "write_result io (WriteCalls s) = Some ex" and "ex \<noteq> forced_unwind"
    and "ReplyStates s p = Pending"
  shows "fst (WriteLoop_item io (AwaitSingle query p) s) = Continue
    \<and> ReplyStates (snd (WriteLoop_item io (AwaitSingle query p) s)) p = HasException ex
    \<and> future_get (ReplyStates (snd (WriteLoop_item io (AwaitSingle query p) s)) p) = Some (Inl ex)
    \<and> FutureResponseActions (snd (WriteLoop_item io (AwaitSingle query p) s)) = FutureResponseActions s
    \<and> ReplyPromises (snd (WriteLoop_item io (AwaitSingle query p) s)) = ReplyPromises s
    \<and> QueuedReads (snd (WriteLoop_item io (AwaitSingle query p) s)) = QueuedReads s
    \<and> snd (WriteLoop_item io (AwaitSingle query p) s)
         = s\<lparr>WriteCalls := Suc (WriteCalls s), ReplyStates := (ReplyStates s)(p := HasException ex)\<rparr>"
  by (simp add: AwaitSingle_failure [OF assms] future_get_def)

theorem C4_witness:
  "fst (WriteLoop_item io_refused (AwaitSingle [''GET'', ''k''] 3) state5) = Continue
    \<and> ReplyStates (snd (WriteLoop_item io_refused (AwaitSingle [''GET'', ''k''] 3) state5)) 3
         = HasException (std_exception ''Bad file descriptor'')
    \<and> FutureResponseActions (snd (WriteLoop_item io_refused (AwaitSingle [''GET'', ''k''] 3) state5))
         = [\<lparr>Amount = 1, Action = Ignore\<rparr>, \<lparr>Amount = 1, Action = Deliver\<rparr>, \<lparr>Amount = 2, Action = DeliverBulk\<rparr>]
    \<and> ReplyPromises (snd (WriteLoop_item io_refused (AwaitSingle [''GET'', ''k''] 3) state5)) = [0]
    \<and> QueuedReads (snd (WriteLoop_item io_refused (AwaitSingle [''GET'', ''k''] 3) state5))"
proof -
  have w: "write_result io_refused (WriteCalls state5) = Some (std_exception ''Bad file descriptor'')"
    by (simp add: io_refused_def)
  have e: "std_exception ''Bad file descriptor'' \<noteq> forced_unwind" by simp
  have p: "ReplyStates state5 3 = Pending" by code_simp
  have fa: "FutureResponseActions state5
     = [\<lparr>Amount = 1, Action = Ignore\<rparr>, \<lparr>Amount = 1, Action = Deliver\<rparr>, \<lparr>Amount = 2, Action = DeliverBulk\<rparr>]"
    by code_simp
  have rp: "ReplyPromises state5 = [0]" by code_simp
  have qr: "QueuedReads state5" by code_simp
  show ?thesis
    using C4_await_single_send_failure [OF w e p, of "[''GET'', ''k'']"] fa rp qr by simp
qed

text \<open>
  The hypothesis on the promise is met in an execution: on a connection whose
  loops are idle, a call of \<open>GetResultOfQuery\<close> followed by two moves of the Writer,
  whose \<open>WriteOne\<close> fails, leaves the caller with the exception and the queues of the
  Reader as they were.
\<close>

lemma await_single_send_failure_on_idle_connection:
  assumes "idle s" and "write_result io (WriteCalls s) = Some ex" and "ex \<noteq> forced_unwind"
  shows "run io [CallGetResultOfQuery query, RunWriteLoop, RunWriteLoop] s =
    s\<lparr>LogOutput := LogOutput s @ [(LogNotice, ''RedisWriter'', ''Executing query:'' @ LogQuery query)],
      PromisesMade := Suc (PromisesMade s),
      ReplyStates := (ReplyStates s)(PromisesMade s := HasException ex),
      QueuedWrites := True, WriteCalls := Suc (WriteCalls s), WriteLoop_pc := WriteAtWhile\<rparr>"
proof -
  let ?p = "PromisesMade s"
  let ?s1 = "s\<lparr>LogOutput := LogOutput s @ [(LogNotice, ''RedisWriter'', ''Executing query:'' @ LogQuery query)],
        PromisesMade := Suc ?p, ReplyStates := (ReplyStates s)(?p := Pending),
        Writes := [AwaitSingle query ?p], QueuedWrites := True\<rparr>"
  have 1: "fire io (CallGetResultOfQuery query) s = ?s1"
    using assms(1) by (simp add: GetResultOfQuery_def Log_def Let_def idle_def AwaitSingle_def)
  let ?s2 = "?s1\<lparr>WriteLoop_pc := WriteAtWhile\<rparr>"
  have 2: "fire io RunWriteLoop ?s1 = ?s2"
    using assms(1) by (simp add: idle_def WriteLoop_step_def)
  have 3: "WriteLoop_item io (AwaitSingle query ?p) (?s2\<lparr>Writes := []\<rparr>) =
      (Continue, (?s2\<lparr>Writes := []\<rparr>)\<lparr>WriteCalls := Suc (WriteCalls s),
          ReplyStates := (ReplyStates s)(?p := HasException ex)\<rparr>)"
    using AwaitSingle_failure [of io "?s2\<lparr>Writes := []\<rparr>" ex ?p query] assms(2,3) by simp
  have 4: "fire io RunWriteLoop ?s2 = (?s2\<lparr>Writes := []\<rparr>)\<lparr>WriteCalls := Suc (WriteCalls s),
          ReplyStates := (ReplyStates s)(?p := HasException ex)\<rparr>"
    using assms(1) 3 by (simp add: idle_def WriteLoop_step_def)
  have "run io [CallGetResultOfQuery query, RunWriteLoop, RunWriteLoop] s = fire io RunWriteLoop ?s2"
    unfolding run.simps 1 2 ..
  then show ?thesis unfolding 4 using assms(1) by (simp add: idle_def)
qed

subsection \<open>C3: a bulk of fire-and-forget queries\<close>

lemma FireBulk_failure:
  assumes "k < length qs" "\<forall>j<k. write_result io (WriteCalls s + j) = None"
    "write_result io (WriteCalls s + k) = Some ex" "ex \<noteq> forced_unwind"
  shows "WriteLoop_item io (FireBulk qs) s =
    (Continue, s\<lparr>WriteCalls := WriteCalls s + Suc k, Sent := Sent s @ take k qs,
        LogOutput := LogOutput s @ [(LogCritical, ''RedisWriter'',
          ''Error during sending query'' @ LogQuery (qs ! k) @
            (case ex of std_exception w \<Rightarrow> '' which has been fired and forgotten: '' @ w
             | _ \<Rightarrow> '' which has been fired and forgotten''))]\<rparr>)"
proof -
  have w: "WriteAll io qs 0 s
     = (Some ex, k, s\<lparr>WriteCalls := WriteCalls s + Suc k, Sent := Sent s @ take k qs\<rparr>)"
    using WriteAll_failure [OF assms(1,2,3), of 0] by simp
  show ?thesis
  proof (cases ex)
    case forced_unwind
    then show ?thesis using assms(4) by simp
  next
    case (std_exception x)
    then show ?thesis
      by (simp add: destroy_defs WriteLoop_item_FireBulk WriteLoop_FireAndForgetQueries_def w Log_def)
  next
    case non_std_exception
    then show ?thesis
      by (simp add: destroy_defs WriteLoop_item_FireBulk WriteLoop_FireAndForgetQueries_def w Log_def)
  qed
qed

text \<open>
  Claim C3, as amended. (1) When the send of sub-query \<open>k + 1\<close> of an item of
  \<open>FireAndForgetQueries\<close> fails with an exception other than \<open>forced_unwind\<close>, after
  \<open>k\<close> sub-queries have been sent, one critical message is logged and the loop goes on
  with the next item; the \<open>k\<close> sub-queries are on the socket, but
  \<open>FutureResponseActions\<close> and \<open>QueuedReads\<close> are as before: nothing is recorded for
  them. (2) When all \<open>N\<close> sends succeed, the last Ignore entry grows by \<open>N\<close>, or
  a new Ignore entry of amount \<open>N\<close> is appended.
\<close>

theorem C3_fire_bulk_bookkeeping:
  "(k < length queries \<and> (\<forall>j<k. write_result io (WriteCalls s + j) = None)
      \<and> write_result io (WriteCalls s + k) = Some ex \<and> ex \<noteq> forced_unwind \<longrightarrow>
      fst (WriteLoop_item io (FireBulk queries) s) = Continue
      \<and> FutureResponseActions (snd (WriteLoop_item io (FireBulk queries) s)) = FutureResponseActions s
      \<and> QueuedReads (snd (WriteLoop_item io (FireBulk queries) s)) = QueuedReads s
      \<and> Sent (snd (WriteLoop_item io (FireBulk queries) s)) = Sent s @ take k queries
      \<and> (\<exists>msg. LogOutput (snd (WriteLoop_item io (FireBulk queries) s))
             = LogOutput s @ [(LogCritical, ''RedisWriter'', msg)]))
   \<and> ((\<forall>j<length queries. write_result io (WriteCalls s + j) = None) \<longrightarrow>
      fst (WriteLoop_item io (FireBulk queries) s) = Next
      \<and> FutureResponseActions (snd (WriteLoop_item io (FireBulk queries) s))
          = record_action (length queries) Ignore (FutureResponseActions s)
      \<and> units Ignore (FutureResponseActions (snd (WriteLoop_item io (FireBulk queries) s)))
          = units Ignore (FutureResponseActions s) + length queries
      \<and> Sent (snd (WriteLoop_item io (FireBulk queries) s)) = Sent s @ queries
      \<and> QueuedReads (snd (WriteLoop_item io (FireBulk queries) s)))"
proof (intro conjI impI)
  assume h: "k < length queries \<and> (\<forall>j<k. write_result io (WriteCalls s + j) = None)
      \<and> write_result io (WriteCalls s + k) = Some ex \<and> ex \<noteq> forced_unwind"
  then have m: "WriteLoop_item io (FireBulk queries) s =
    (Continue, s\<lparr>WriteCalls := WriteCalls s + Suc k, Sent := Sent s @ take k queries,
        LogOutput := LogOutput s @ [(LogCritical, ''RedisWriter'',
          ''Error during sending query'' @ LogQuery (queries ! k) @
            (case ex of std_exception w \<Rightarrow> '' which has been fired and forgotten: '' @ w
             | _ \<Rightarrow> '' which has been fired and forgotten''))]\<rparr>)"
    using FireBulk_failure [of k queries io s ex] by blast
  show "fst (WriteLoop_item io (FireBulk queries) s) = Continue" by (simp add: m)
  show "FutureResponseActions (snd (WriteLoop_item io (FireBulk queries) s)) = FutureResponseActions s"
    by (simp add: m)
  show "QueuedReads (snd (WriteLoop_item io (FireBulk queries) s)) = QueuedReads s" by (simp add: m)
  show "Sent (snd (WriteLoop_item io (FireBulk queries) s)) = Sent s @ take k queries" by (simp add: m)
  show "\<exists>msg. LogOutput (snd (WriteLoop_item io (FireBulk queries) s))
             = LogOutput s @ [(LogCritical, ''RedisWriter'', msg)]" by (simp add: m)
next
  assume a: "\<forall>j<length queries. write_result io (WriteCalls s + j) = None"
  note m = FireBulk_success [OF a]
  show "fst (WriteLoop_item io (FireBulk queries) s) = Next" by (simp add: m)
  show "FutureResponseActions (snd (WriteLoop_item io (FireBulk queries) s))
          = record_action (length queries) Ignore (FutureResponseActions s)" by (simp add: m)
  show "units Ignore (FutureResponseActions (snd (WriteLoop_item io (FireBulk queries) s)))
          = units Ignore (FutureResponseActions s) + length queries"
    by (simp add: m units_record_action)
  show "Sent (snd (WriteLoop_item io (FireBulk queries) s)) = Sent s @ queries" by (simp add: m)
  show "QueuedReads (snd (WriteLoop_item io (FireBulk queries) s))" by (simp add: m)
qed

theorem C3_witness:
  "fst (WriteLoop_item io_second_write_fails (FireBulk [[''SET'', ''a'', ''1''], [''SET'', ''b'', ''2'']])
          (RedisConnection_new ''localhost'' 6379 [])) = Continue
   \<and> FutureResponseActions (snd (WriteLoop_item io_second_write_fails
          (FireBulk [[''SET'', ''a'', ''1''], [''SET'', ''b'', ''2'']]) (RedisConnection_new ''localhost'' 6379 []))) = []
   \<and> Sent (snd (WriteLoop_item io_second_write_fails
          (FireBulk [[''SET'', ''a'', ''1''], [''SET'', ''b'', ''2'']]) (RedisConnection_new ''localhost'' 6379 [])))
        = [[''SET'', ''a'', ''1'']]
   \<and> FutureResponseActions (snd (WriteLoop_item io_ok
          (FireBulk [[''SET'', ''a'', ''1''], [''SET'', ''b'', ''2'']]) (RedisConnection_new ''localhost'' 6379 [])))
        = [\<lparr>Amount = 2, Action = Ignore\<rparr>]"
proof -
  let ?s = "RedisConnection_new ''localhost'' 6379 []"
  let ?qs = "[[''SET'', ''a'', ''1''], [''SET'', ''b'', ''2'']]"
  have s0: "WriteCalls ?s = 0" "FutureResponseActions ?s = []" "Sent ?s = []"
    by (simp_all add: RedisConnection_new_def)
  have f: "1 < length ?qs \<and> (\<forall>j<1. write_result io_second_write_fails (WriteCalls ?s + j) = None)
      \<and> write_result io_second_write_fails (WriteCalls ?s + 1) = Some (std_exception ''Broken pipe'')
      \<and> std_exception ''Broken pipe'' \<noteq> forced_unwind"
    by (simp add: io_second_write_fails_def s0)
  have g: "\<forall>j<length ?qs. write_result io_ok (WriteCalls ?s + j) = None"
    by (simp add: io_ok_def)
  show ?thesis
    using C3_fire_bulk_bookkeeping [of 1 ?qs io_second_write_fails ?s "std_exception ''Broken pipe''"]
      C3_fire_bulk_bookkeeping [of 0 ?qs io_ok ?s] f g
    by (simp add: s0 record_action_def)
qed

theorem C3_counterexample:
  "Sent (run io_second_write_fails run3 (RedisConnection_new ''localhost'' 6379 [])) = [[''SET'', ''a'', ''1'']]
   \<and> FutureResponseActions (run io_second_write_fails run3 (RedisConnection_new ''localhost'' 6379 [])) = []
   \<and> units Ignore (FutureResponseActions (run io_second_write_fails run3 (RedisConnection_new ''localhost'' 6379 [])))
       \<noteq> 1"
  by code_simp

subsection \<open>C2: a failed read of an ignored reply\<close>

lemma Ignore_read_failure:
  assumes "ReadLoop_pc s = IgnoreFor i" "0 < i" "read_result io (ReadCalls s) = Inl ex" "ex \<noteq> forced_unwind"
  shows "ReadLoop_step io s = s\<lparr>ReadCalls := Suc (ReadCalls s),
      LogOutput := LogOutput s @ [(LogCritical, ''RedisWriter'',
        (case ex of std_exception w \<Rightarrow>
           ''Error during receiving the response to a query which has been fired and forgotten: '' @ w
         | _ \<Rightarrow> ''Error during receiving the response to a query which has been fired and forgotten''))],
      ReadLoop_pc := ReadAtWhile\<rparr>"
proof (cases ex)
  case forced_unwind
  then show ?thesis using assms(4) by simp
next
  case (std_exception x)
  then show ?thesis using assms(1,2,3)
    by (simp add: ReadLoop_step_def ReadLoop_Ignore_def ReadOne_def Log_def)
next
  case non_std_exception
  then show ?thesis using assms(1,2,3)
    by (simp add: ReadLoop_step_def ReadLoop_Ignore_def ReadOne_def Log_def)
qed

text \<open>
  Claim C2, as amended. When the Reader is in the loop of an Ignore entry with \<open>i > 0\<close>
  reads to go and \<open>ReadOne\<close> fails with an exception other than \<open>forced_unwind\<close>, one
  critical message is logged and the Reader is back at the \<open>while\<close>, where it takes
  the next entry: the read that failed was the last one made for this entry, and the
  other \<open>i - 1\<close> are not attempted. Only a read that succeeds leads to the next read
  of the entry.
\<close>

theorem C2_ignore_read_failure:
  "(ReadLoop_pc s = IgnoreFor i \<and> 0 < i \<and> read_result io (ReadCalls s) = Inl ex \<and> ex \<noteq> forced_unwind \<longrightarrow>
      ReadLoop_pc (ReadLoop_step io s) = ReadAtWhile
      \<and> ReadCalls (ReadLoop_step io s) = Suc (ReadCalls s)
      \<and> FutureResponseActions (ReadLoop_step io s) = FutureResponseActions s
      \<and> (\<exists>msg. LogOutput (ReadLoop_step io s) = LogOutput s @ [(LogCritical, ''RedisWriter'', msg)]))
   \<and> (ReadLoop_pc s = IgnoreFor i \<and> 0 < i \<and> read_result io (ReadCalls s) = Inr reply \<longrightarrow>
      ReadLoop_pc (ReadLoop_step io s) = IgnoreFor (i - 1)
      \<and> ReadCalls (ReadLoop_step io s) = Suc (ReadCalls s)
      \<and> LogOutput (ReadLoop_step io s) = LogOutput s)"
proof (intro conjI impI)
  assume h: "ReadLoop_pc s = IgnoreFor i \<and> 0 < i \<and> read_result io (ReadCalls s) = Inl ex \<and> ex \<noteq> forced_unwind"
  note m = Ignore_read_failure [of s i io ex]
  show "ReadLoop_pc (ReadLoop_step io s) = ReadAtWhile" using h by (simp add: m)
  show "ReadCalls (ReadLoop_step io s) = Suc (ReadCalls s)" using h by (simp add: m)
  show "FutureResponseActions (ReadLoop_step io s) = FutureResponseActions s" using h by (simp add: m)
  show "\<exists>msg. LogOutput (ReadLoop_step io s) = LogOutput s @ [(LogCritical, ''RedisWriter'', msg)]"
    using h by (simp add: m)
next
  assume h: "ReadLoop_pc s = IgnoreFor i \<and> 0 < i \<and> read_result io (ReadCalls s) = Inr reply"
  then have m: "ReadLoop_step io s = s\<lparr>ReadCalls := Suc (ReadCalls s), ReadLoop_pc := IgnoreFor (i - 1)\<rparr>"
    by (simp add: ReadLoop_step_def ReadLoop_Ignore_def ReadOne_def)
  show "ReadLoop_pc (ReadLoop_step io s) = IgnoreFor (i - 1)" by (simp add: m)
  show "ReadCalls (ReadLoop_step io s) = Suc (ReadCalls s)" by (simp add: m)
  show "LogOutput (ReadLoop_step io s) = LogOutput s" by (simp add: m)
qed

theorem C2_witness:
  "ReadLoop_pc state2 = IgnoreFor 2
   \<and> ReadLoop_pc (ReadLoop_step io_first_read_fails state2) = ReadAtWhile
   \<and> ReadCalls (ReadLoop_step io_first_read_fails state2) = 1
   \<and> ReadLoop_pc (ReadLoop_step io_ok state2) = IgnoreFor 1"
proof -
  have pc: "ReadLoop_pc state2 = IgnoreFor 2" by code_simp
  have rc: "ReadCalls state2 = 0" by code_simp
  have f: "ReadLoop_pc state2 = IgnoreFor 2 \<and> (0::nat) < 2
      \<and> read_result io_first_read_fails (ReadCalls state2) = Inl (std_exception ''Connection reset by peer'')
      \<and> std_exception ''Connection reset by peer'' \<noteq> forced_unwind"
    by (simp add: pc rc io_first_read_fails_def)
  have g: "ReadLoop_pc state2 = IgnoreFor 2 \<and> (0::nat) < 2
      \<and> read_result io_ok (ReadCalls state2) = Inr (SimpleStringReply ''OK'')"
    by (simp add: pc rc io_ok_def)
  have a: "ReadLoop_pc (ReadLoop_step io_first_read_fails state2) = ReadAtWhile
      \<and> ReadCalls (ReadLoop_step io_first_read_fails state2) = Suc (ReadCalls state2)"
    using C2_ignore_read_failure [of state2 2 io_first_read_fails "std_exception ''Connection reset by peer''"] f
    by blast
  have b: "ReadLoop_pc (ReadLoop_step io_ok state2) = IgnoreFor (2 - 1)"
    using C2_ignore_read_failure [of state2 2 io_ok _ "SimpleStringReply ''OK''"] g
    by blast
  show ?thesis using pc a b rc by simp
qed

theorem C2_counterexample:
  "ReadLoop_pc (run io_first_read_fails run2 (RedisConnection_new ''localhost'' 6379 [])) = ReadWaiting
   \<and> FutureResponseActions (run io_first_read_fails run2 (RedisConnection_new ''localhost'' 6379 [])) = []
   \<and> Sent (run io_first_read_fails run2 (RedisConnection_new ''localhost'' 6379 []))
        = [[''SET'', ''a'', ''1''], [''SET'', ''b'', ''2'']]
   \<and> ReadCalls (run io_first_read_fails run2 (RedisConnection_new ''localhost'' 6379 [])) = 1"
  by code_simp

subsection \<open>C6: a failed read of a bulk reply\<close>

text \<open>
  Claim C6 fails on the code. A DeliverBulk entry of amount 2 whose first read fails:
  the promise gets the exception, the second reply is read, and the \<open>set_value\<close>
  after the loop then throws \<open>std::future_error\<close> out of \<open>ReadLoop\<close>. A DeliverBulk
  entry of amount 3 whose first two reads fail: the second \<open>set_exception\<close> throws out
  of \<open>ReadLoop\<close>, and the third reply is never read.
\<close>

theorem C6_bulk_read_failure_leaves_loop:
  "ReadLoop_pc (run io_first_read_fails run6 (RedisConnection_new ''localhost'' 6379 []))
      = ReadExited promise_already_satisfied
   \<and> ReadCalls (run io_first_read_fails run6 (RedisConnection_new ''localhost'' 6379 [])) = 2
   \<and> RepliesStates (run io_first_read_fails run6 (RedisConnection_new ''localhost'' 6379 [])) 0
      = HasException (std_exception ''Connection reset by peer'')
   \<and> ReadLoop_pc (run io_two_reads_fail run6' (RedisConnection_new ''localhost'' 6379 []))
      = ReadExited promise_already_satisfied
   \<and> ReadCalls (run io_two_reads_fail run6' (RedisConnection_new ''localhost'' 6379 [])) = 2
   \<and> Sent (run io_two_reads_fail run6' (RedisConnection_new ''localhost'' 6379 []))
      = [[''GET'', ''a''], [''GET'', ''b''], [''GET'', ''c'']]"
  by code_simp

lemma DeliverBulk_after_failure:
  assumes "ReadLoop_pc s = DeliverBulkFor i promise replies" "RepliesStates s promise \<noteq> Pending"
  shows "ReadLoop_pc (ReadLoop_step io s) = ReadExited promise_already_satisfied
    \<or> ReadLoop_pc (ReadLoop_step io s) = ReadExited forced_unwind
    \<or> (\<exists>replies'. ReadLoop_pc (ReadLoop_step io s) = DeliverBulkFor (i - 1) promise replies'
          \<and> 0 < i \<and> RepliesStates (ReadLoop_step io s) promise \<noteq> Pending)"
  using assms
  by (auto simp: ReadLoop_step_def ReadLoop_DeliverBulk_def ReadOne_def Replies_set_value_def
      Replies_set_exception_def split: sum.splits exn.splits)

subsection \<open>C7: forced unwind\<close>

lemma WriteLoop_item_flow:
  assumes chain: "\<And>a b f c. Q a Next b \<Longrightarrow> Q b f c \<Longrightarrow> Q a f c"
    and b1: "\<And>t. Q t (fst (WriteLoop_FireAndForgetQuery io item t)) (snd (WriteLoop_FireAndForgetQuery io item t))"
    and b2: "\<And>t. Q t (fst (WriteLoop_FireAndForgetQueries io item t)) (snd (WriteLoop_FireAndForgetQueries io item t))"
    and b3: "\<And>t. Q t (fst (WriteLoop_GetResultOfQuery io item t)) (snd (WriteLoop_GetResultOfQuery io item t))"
    and b4: "\<And>t. Q t (fst (WriteLoop_GetResultsOfQueries io item t)) (snd (WriteLoop_GetResultsOfQueries io item t))"
  shows "Q s (fst (WriteLoop_item io item s)) (snd (WriteLoop_item io item s))"
proof -
  obtain f1 s1 where e1: "WriteLoop_FireAndForgetQuery io item s = (f1, s1)" by fastforce
  obtain f2 s2 where e2: "WriteLoop_FireAndForgetQueries io item s1 = (f2, s2)" by fastforce
  obtain f3 s3 where e3: "WriteLoop_GetResultOfQuery io item s2 = (f3, s3)" by fastforce
  obtain f4 s4 where e4: "WriteLoop_GetResultsOfQueries io item s3 = (f4, s4)" by fastforce
  have r1: "Q s f1 s1" using b1 [of s] e1 by simp
  have r2: "Q s1 f2 s2" using b2 [of s1] e2 by simp
  have r3: "Q s2 f3 s3" using b3 [of s2] e3 by simp
  have r4: "Q s3 f4 s4" using b4 [of s3] e4 by simp
  show ?thesis
  proof (cases "f1 = Next")
    case False
    then show ?thesis using e1 r1 by (cases f1) (simp_all add: WriteLoop_item_def)
  next
    case n1: True
    have r12: "Q s f2 s2" using chain r1 r2 n1 by blast
    show ?thesis
    proof (cases "f2 = Next")
      case False
      then show ?thesis using e1 e2 n1 r12 by (cases f2) (simp_all add: WriteLoop_item_def)
    next
      case n2: True
      have r13: "Q s f3 s3" using chain r12 r3 n2 by blast
      show ?thesis
      proof (cases "f3 = Next")
        case False
        then show ?thesis using e1 e2 e3 n1 n2 r13 by (cases f3) (simp_all add: WriteLoop_item_def)
      next
        case n3: True
        have r14: "Q s f4 s4" using chain r13 r4 n3 by blast
        then show ?thesis using e1 e2 e3 e4 n1 n2 n3 by (simp add: WriteLoop_item_def)
      qed
    qed
  qed
qed

lemma only_broken_refl: "only_broken s s"
  by (simp add: only_broken_def)

lemma only_broken_trans: "only_broken a b \<Longrightarrow> only_broken b c \<Longrightarrow> only_broken a c"
  unfolding only_broken_def by metis

lemma only_broken_no_forced_unwind:
  assumes "only_broken s t"
  shows "(ReplyStates t p = HasException forced_unwind \<longrightarrow> ReplyStates s p = HasException forced_unwind)
    \<and> (RepliesStates t p = HasException forced_unwind \<longrightarrow> RepliesStates s p = HasException forced_unwind)"
proof -
  have 1: "ReplyStates t p = ReplyStates s p
      \<or> (ReplyStates s p = Pending \<and> ReplyStates t p = HasException broken_promise)"
    and 2: "RepliesStates t p = RepliesStates s p
      \<or> (RepliesStates s p = Pending \<and> RepliesStates t p = HasException broken_promise)"
    using assms by (simp_all add: only_broken_def)
  show ?thesis using 1 2 by (auto simp: broken_promise_def)
qed

lemma Reply_promise_destroy_unwound:
  "unwound s (Reply_promise_destroy p s)" "WriteCalls (Reply_promise_destroy p s) = WriteCalls s"
  by (simp_all add: unwound_def only_broken_def Reply_promise_destroy_def)

lemma Replies_promise_destroy_unwound:
  "unwound s (Replies_promise_destroy p s)" "WriteCalls (Replies_promise_destroy p s) = WriteCalls s"
  by (simp_all add: unwound_def only_broken_def Replies_promise_destroy_def)

lemma unwound_refl: "unwound s s"
  by (simp add: unwound_def only_broken_refl)

lemma unwound_trans: "unwound a b \<Longrightarrow> unwound b c \<Longrightarrow> unwound a c"
  using only_broken_trans by (auto simp: unwound_def)

lemma destroy_next_unwound:
  "unwound s (destroy_next item s)" "WriteCalls (destroy_next item s) = WriteCalls s"
proof -
  let ?s1 = "case ItemGetResultOfQuery item of None \<Rightarrow> s | Some qp \<Rightarrow> Reply_promise_destroy (snd qp) s"
  have 1: "unwound s ?s1" "WriteCalls ?s1 = WriteCalls s"
    by (auto simp: Reply_promise_destroy_unwound unwound_refl split: option.splits)
  have 2: "unwound ?s1 (destroy_next item s)" "WriteCalls (destroy_next item s) = WriteCalls ?s1"
    by (auto simp: destroy_next_def Let_def Replies_promise_destroy_unwound unwound_refl
        split: option.splits)
  show "unwound s (destroy_next item s)" using 1(1) 2(1) by (rule unwound_trans)
  show "WriteCalls (destroy_next item s) = WriteCalls s" using 1(2) 2(2) by simp
qed

lemma quiet_unwound: "quiet a b \<Longrightarrow> unwound b c \<Longrightarrow> unwound a c"
  by (simp add: quiet_def unwound_def only_broken_def)

lemma unwinds_chain:
  assumes ab: "unwinds io a Next b" and bc: "unwinds io b f c"
  shows "unwinds io a f c"
proof -
  have le: "WriteCalls a \<le> WriteCalls b" "WriteCalls b \<le> WriteCalls c"
    using ab bc by (simp_all add: unwinds_def)
  have okab: "sends_ok io a b" and qab: "quiet a b" using ab by (simp_all add: unwinds_def)
  show ?thesis
  proof (cases "f = Next")
    case True
    then have "sends_ok io b c" "quiet b c" using bc by (simp_all add: unwinds_def)
    then show ?thesis using True okab qab le
      by (auto simp: unwinds_def sends_ok_def quiet_def) (metis not_le_imp_less)
  next
    case False
    then have lt: "WriteCalls b < WriteCalls c" and bl: "sends_ok_but_last io b c"
      and last: "write_result io (WriteCalls c - 1) = Some forced_unwind \<longrightarrow> f = Throw forced_unwind \<and> unwound b c"
      using bc by (simp_all add: unwinds_def)
    have "sends_ok_but_last io a c"
      unfolding sends_ok_but_last_def
    proof (intro allI impI)
      fix k assume k: "WriteCalls a \<le> k \<and> Suc k < WriteCalls c"
      show "write_result io k = None"
      proof (cases "k < WriteCalls b")
        case True
        then show ?thesis using okab k by (simp add: sends_ok_def)
      next
        case False
        then show ?thesis using bl k by (simp add: sends_ok_but_last_def)
      qed
    qed
    then show ?thesis using False lt le last quiet_unwound [OF qab]
      by (auto simp: unwinds_def)
  qed
qed

text \<open>A block that ends after one failed call, with the state handed to a destructor.\<close>

lemma unwinds_after_failure:
  assumes "WriteCalls s1 = Suc (WriteCalls s + n)" "\<forall>j<n. write_result io (WriteCalls s + j) = None"
    and "f \<noteq> Next"
    and "LogOutput s1 = LogOutput s" "ReplyStates s1 = ReplyStates s" "RepliesStates s1 = RepliesStates s"
    and "WriteCalls t = WriteCalls s1"
    and "write_result io (WriteCalls s + n) = Some forced_unwind \<longrightarrow> f = Throw forced_unwind \<and> unwound s1 t"
  shows "unwinds io s f t"
proof -
  have bl: "sends_ok_but_last io s t"
    unfolding sends_ok_but_last_def
  proof (intro allI impI)
    fix k assume k: "WriteCalls s \<le> k \<and> Suc k < WriteCalls t"
    then have "k - WriteCalls s < n" "k = WriteCalls s + (k - WriteCalls s)" using assms(1,7) by auto
    then show "write_result io k = None" using assms(2) by metis
  qed
  have q: "quiet s s1" using assms(4,5,6) by (simp add: quiet_def)
  show ?thesis
    using assms(1,3,7,8) bl quiet_unwound [OF q]
    by (auto simp: unwinds_def)
qed

lemma unwinds_b1: "unwinds io t (fst (WriteLoop_FireAndForgetQuery io item t)) (snd (WriteLoop_FireAndForgetQuery io item t))"
proof (cases "ItemFireAndForgetQuery item")
  case None
  then show ?thesis
    by (auto simp: WriteLoop_FireAndForgetQuery_def unwinds_def sends_ok_def quiet_def)
next
  case (Some q)
  show ?thesis
  proof (cases "write_result io (WriteCalls t)")
    case None
    then show ?thesis using Some
      by (auto simp: WriteLoop_FireAndForgetQuery_def WriteOne_def unwinds_def sends_ok_def quiet_def
          less_Suc_eq_le)
  next
    case ex: (Some ex)
    let ?t1 = "t\<lparr>WriteCalls := Suc (WriteCalls t)\<rparr>"
    show ?thesis
    proof (cases ex)
      case forced_unwind
      then show ?thesis using Some ex
        by (intro unwinds_after_failure [where n = 0 and ?s1.0 = ?t1])
           (simp_all add: WriteLoop_FireAndForgetQuery_def WriteOne_def destroy_next_unwound)
    next
      case (std_exception w)
      then show ?thesis using Some ex
        by (intro unwinds_after_failure [where n = 0 and ?s1.0 = ?t1])
           (simp_all add: WriteLoop_FireAndForgetQuery_def WriteOne_def destroy_next_unwound Log_def)
    next
      case non_std_exception
      then show ?thesis using Some ex
        by (intro unwinds_after_failure [where n = 0 and ?s1.0 = ?t1])
           (simp_all add: WriteLoop_FireAndForgetQuery_def WriteOne_def destroy_next_unwound Log_def)
    qed
  qed
qed


lemma unwinds_b3: "unwinds io t (fst (WriteLoop_GetResultOfQuery io item t)) (snd (WriteLoop_GetResultOfQuery io item t))"
proof (cases "ItemGetResultOfQuery item")
  case None
  then show ?thesis
    by (auto simp: WriteLoop_GetResultOfQuery_def unwinds_def sends_ok_def quiet_def)
next
  case (Some qp)
  show ?thesis
  proof (cases "write_result io (WriteCalls t)")
    case None
    then show ?thesis using Some
      by (auto simp: WriteLoop_GetResultOfQuery_def WriteOne_def unwinds_def sends_ok_def quiet_def
          less_Suc_eq_le)
  next
    case ex: (Some ex)
    let ?t1 = "t\<lparr>WriteCalls := Suc (WriteCalls t)\<rparr>"
    show ?thesis
    proof (cases ex)
      case forced_unwind
      then show ?thesis using Some ex
        by (intro unwinds_after_failure [where n = 0 and ?s1.0 = ?t1])
           (simp_all add: WriteLoop_GetResultOfQuery_def WriteOne_def destroy_next_unwound)
    next
      case (std_exception w)
      then show ?thesis using Some ex
        by (intro unwinds_after_failure [where n = 0 and ?s1.0 = ?t1])
           (simp_all add: WriteLoop_GetResultOfQuery_def WriteOne_def destroy_next_unwound
              Reply_set_exception_def)
    next
      case non_std_exception
      then show ?thesis using Some ex
        by (intro unwinds_after_failure [where n = 0 and ?s1.0 = ?t1])
           (simp_all add: WriteLoop_GetResultOfQuery_def WriteOne_def destroy_next_unwound
              Reply_set_exception_def)
    qed
  qed
qed

lemma unwinds_b2: "unwinds io t (fst (WriteLoop_FireAndForgetQueries io item t)) (snd (WriteLoop_FireAndForgetQueries io item t))"
proof (cases "ItemFireAndForgetQueries item")
  case None
  then show ?thesis
    by (auto simp: WriteLoop_FireAndForgetQueries_def unwinds_def sends_ok_def quiet_def)
next
  case (Some qs)
  obtain r i t1 where w: "WriteAll io qs 0 t = (r, i, t1)" using prod_cases3 by blast
  from WriteAll_result [OF w] obtain n where n: "n \<le> length qs"
    "t1 = t\<lparr>WriteCalls := WriteCalls t + (if r = None then n else Suc n), Sent := Sent t @ take n qs\<rparr>"
    "\<forall>j<n. write_result io (WriteCalls t + j) = None"
    "case r of None \<Rightarrow> n = length qs
       | Some ex \<Rightarrow> n < length qs \<and> write_result io (WriteCalls t + n) = Some ex"
    by blast
  show ?thesis
  proof (cases r)
    case None
    have "sends_ok io t t1"
      unfolding sends_ok_def
    proof (intro allI impI)
      fix k assume k: "WriteCalls t \<le> k \<and> k < WriteCalls t1"
      then have "k - WriteCalls t < n" "k = WriteCalls t + (k - WriteCalls t)" using n(2) None by auto
      then show "write_result io k = None" using n(3) by metis
    qed
    then show ?thesis using Some w None n(2)
      by (simp add: WriteLoop_FireAndForgetQueries_def unwinds_def sends_ok_def quiet_def)
  next
    case ex: (Some ex)
    have wr: "write_result io (WriteCalls t + n) = Some ex" using n(4) ex by simp
    show ?thesis
    proof (cases ex)
      case forced_unwind
      then show ?thesis using Some w ex n(2,3) wr
        by (intro unwinds_after_failure [where n = n and ?s1.0 = t1])
           (simp_all add: WriteLoop_FireAndForgetQueries_def destroy_next_unwound)
    next
      case (std_exception x)
      then show ?thesis using Some w ex n(2,3) wr
        by (intro unwinds_after_failure [where n = n and ?s1.0 = t1])
           (simp_all add: WriteLoop_FireAndForgetQueries_def destroy_next_unwound Log_def)
    next
      case non_std_exception
      then show ?thesis using Some w ex n(2,3) wr
        by (intro unwinds_after_failure [where n = n and ?s1.0 = t1])
           (simp_all add: WriteLoop_FireAndForgetQueries_def destroy_next_unwound Log_def)
    qed
  qed
qed

lemma unwinds_b4: "unwinds io t (fst (WriteLoop_GetResultsOfQueries io item t)) (snd (WriteLoop_GetResultsOfQueries io item t))"
proof (cases "ItemGetResultsOfQueries item")
  case None
  then show ?thesis
    by (auto simp: WriteLoop_GetResultsOfQueries_def unwinds_def sends_ok_def quiet_def)
next
  case (Some qp)
  obtain r i t1 where w: "WriteAll io (fst qp) 0 t = (r, i, t1)" using prod_cases3 by blast
  from WriteAll_result [OF w] obtain n where n: "n \<le> length (fst qp)"
    "t1 = t\<lparr>WriteCalls := WriteCalls t + (if r = None then n else Suc n), Sent := Sent t @ take n (fst qp)\<rparr>"
    "\<forall>j<n. write_result io (WriteCalls t + j) = None"
    "case r of None \<Rightarrow> n = length (fst qp)
       | Some ex \<Rightarrow> n < length (fst qp) \<and> write_result io (WriteCalls t + n) = Some ex"
    by blast
  show ?thesis
  proof (cases r)
    case None
    have "sends_ok io t t1"
      unfolding sends_ok_def
    proof (intro allI impI)
      fix k assume k: "WriteCalls t \<le> k \<and> k < WriteCalls t1"
      then have "k - WriteCalls t < n" "k = WriteCalls t + (k - WriteCalls t)" using n(2) None by auto
      then show "write_result io k = None" using n(3) by metis
    qed
    then show ?thesis using Some w None n(2)
      by (simp add: WriteLoop_GetResultsOfQueries_def unwinds_def sends_ok_def quiet_def)
  next
    case ex: (Some ex)
    have wr: "write_result io (WriteCalls t + n) = Some ex" using n(4) ex by simp
    show ?thesis
    proof (cases ex)
      case forced_unwind
      then show ?thesis using Some w ex n(2,3) wr
        by (intro unwinds_after_failure [where n = n and ?s1.0 = t1])
           (simp_all add: WriteLoop_GetResultsOfQueries_def Replies_promise_destroy_unwound)
    next
      case (std_exception x)
      then show ?thesis using Some w ex n(2,3) wr
        by (intro unwinds_after_failure [where n = n and ?s1.0 = t1])
           (simp_all add: WriteLoop_GetResultsOfQueries_def Replies_promise_destroy_unwound
              Replies_set_exception_def)
    next
      case non_std_exception
      then show ?thesis using Some w ex n(2,3) wr
        by (intro unwinds_after_failure [where n = n and ?s1.0 = t1])
           (simp_all add: WriteLoop_GetResultsOfQueries_def Replies_promise_destroy_unwound
              Replies_set_exception_def)
    qed
  qed
qed

lemma unwinds_item: "unwinds io s (fst (WriteLoop_item io item s)) (snd (WriteLoop_item io item s))"
proof (rule WriteLoop_item_flow [where Q = "unwinds io"])
  show "\<And>a b f c. unwinds io a Next b \<Longrightarrow> unwinds io b f c \<Longrightarrow> unwinds io a f c"
    by (rule unwinds_chain)
qed (rule unwinds_b1 unwinds_b2 unwinds_b3 unwinds_b4)+

lemma Writer_forced_unwind:
  assumes "\<exists>k. WriteCalls s \<le> k \<and> k < WriteCalls (snd (WriteLoop_item io item s))
      \<and> write_result io k = Some forced_unwind"
  shows "fst (WriteLoop_item io item s) = Throw forced_unwind \<and> unwound s (snd (WriteLoop_item io item s))"
proof -
  let ?f = "fst (WriteLoop_item io item s)" and ?t = "snd (WriteLoop_item io item s)"
  from assms obtain k where k: "WriteCalls s \<le> k" "k < WriteCalls ?t" "write_result io k = Some forced_unwind"
    by blast
  note u = unwinds_item [of io s item]
  have nn: "?f \<noteq> Next"
  proof
    assume "?f = Next"
    then have "sends_ok io s ?t" using u by (simp add: unwinds_def)
    then show False using k by (simp add: sends_ok_def)
  qed
  then have bl: "sends_ok_but_last io s ?t"
    and last: "write_result io (WriteCalls ?t - 1) = Some forced_unwind \<longrightarrow> ?f = Throw forced_unwind \<and> unwound s ?t"
    using u by (simp_all add: unwinds_def)
  have "\<not> Suc k < WriteCalls ?t" using bl k by (auto simp: sends_ok_but_last_def)
  then have "k = WriteCalls ?t - 1" using k(2) by simp
  then show ?thesis using last k(3) by simp
qed

lemma Reader_forced_unwind:
  assumes "ReadCalls (ReadLoop_step io s) \<noteq> ReadCalls s" "read_result io (ReadCalls s) = Inl forced_unwind"
  shows "ReadLoop_pc (ReadLoop_step io s) = ReadExited forced_unwind \<and> unwound s (ReadLoop_step io s)"
  using assms
  by (cases "ReadLoop_pc s")
     (auto simp: reader_defs unwound_def only_broken_def split: list.splits ResponseAction.splits if_splits)

lemma Connect_forced_unwind:
  assumes "connect_result io (ConnectCalls s) = Some forced_unwind"
  shows "Connect io s = (Some forced_unwind,
     s\<lparr>LogOutput := LogOutput s @ [(LogInformation, ''RedisWriter'', ''Trying to connect to Redis server (async)'')],
       ConnectCalls := Suc (ConnectCalls s), Connecting := Connected s\<rparr>)"
  using assms by (simp add: Connect_def Log_def Let_def)

lemma AwaitSingle_forced_unwind:
  assumes "write_result io (WriteCalls s) = Some forced_unwind"
  shows "WriteLoop_item io (AwaitSingle q p) s =
    (Throw forced_unwind, Reply_promise_destroy p (s\<lparr>WriteCalls := Suc (WriteCalls s)\<rparr>))"
  using assms
  by (simp add: WriteLoop_item_AwaitSingle WriteLoop_GetResultOfQuery_def WriteOne_def destroy_next_def)

lemma AwaitBulk_forced_unwind:
  assumes "n < length qs" "\<forall>j<n. write_result io (WriteCalls s + j) = None"
    "write_result io (WriteCalls s + n) = Some forced_unwind"
  shows "WriteLoop_item io (AwaitBulk qs p) s =
    (Throw forced_unwind,
     Replies_promise_destroy p (s\<lparr>WriteCalls := WriteCalls s + Suc n, Sent := Sent s @ take n qs\<rparr>))"
  by (simp add: WriteLoop_item_AwaitBulk WriteLoop_GetResultsOfQueries_def WriteAll_failure [OF assms])

lemma Deliver_forced_unwind:
  assumes "ReadLoop_pc s = DeliverReadOne i p" "read_result io (ReadCalls s) = Inl forced_unwind"
  shows "ReadLoop_step io s =
    (Reply_promise_destroy p (s\<lparr>ReadCalls := Suc (ReadCalls s)\<rparr>))\<lparr>ReadLoop_pc := ReadExited forced_unwind\<rparr>"
  using assms by (simp add: ReadLoop_step_def ReadLoop_DeliverReadOne_def ReadOne_def)

lemma DeliverBulk_forced_unwind:
  assumes "ReadLoop_pc s = DeliverBulkFor i p replies" "0 < i" "read_result io (ReadCalls s) = Inl forced_unwind"
  shows "ReadLoop_step io s =
    (Replies_promise_destroy p (s\<lparr>ReadCalls := Suc (ReadCalls s)\<rparr>))\<lparr>ReadLoop_pc := ReadExited forced_unwind\<rparr>"
  using assms by (simp add: ReadLoop_step_def ReadLoop_DeliverBulk_def ReadOne_def)

text \<open>
  Claim C7. A \<open>forced_unwind\<close> thrown by the transport is thrown on by every handler
  and leaves the function; it is neither logged nor set on a promise.
  (1) \<open>Connect\<close> throws it on, logs no error and touches no promise.
  (2) When a \<open>WriteOne\<close> made while the Writer handles an item throws it, the loop body
  throws it on; during the whole pass nothing is logged, and no promise gets a value or
  an exception from the code: the only change to the promises is that of the C++
  runtime, which destroys the item with \<open>next\<close>, so that (3, 4) the promise of an
  awaiting item, not yet set, holds \<open>broken_promise\<close>. (5) The exception then leaves
  \<open>WriteLoop\<close>.
  (6) When the \<open>ReadOne\<close> made in a move of the Reader throws it, the exception leaves
  \<open>ReadLoop\<close> with nothing logged and no promise set by the code; (7, 8) the promise
  popped for the reply, being a local of the loop, is destroyed and holds
  \<open>broken_promise\<close>.
  (9, 10) A loop that the exception has left makes no further move.
\<close>

theorem C7_forced_unwind_propagates:
  "(connect_result io (ConnectCalls s) = Some forced_unwind \<longrightarrow>
      fst (Connect io s) = Some forced_unwind
      \<and> errors_logged (snd (Connect io s)) = errors_logged s
      \<and> ReplyStates (snd (Connect io s)) = ReplyStates s
      \<and> RepliesStates (snd (Connect io s)) = RepliesStates s)
   \<and> ((\<exists>k. WriteCalls s \<le> k \<and> k < WriteCalls (snd (WriteLoop_item io item s))
            \<and> write_result io k = Some forced_unwind) \<longrightarrow>
      fst (WriteLoop_item io item s) = Throw forced_unwind
      \<and> LogOutput (snd (WriteLoop_item io item s)) = LogOutput s
      \<and> only_broken s (snd (WriteLoop_item io item s)))
   \<and> (write_result io (WriteCalls s) = Some forced_unwind \<and> ReplyStates s p = Pending \<longrightarrow>
      fst (WriteLoop_item io (AwaitSingle query p) s) = Throw forced_unwind
      \<and> ReplyStates (snd (WriteLoop_item io (AwaitSingle query p) s)) p = HasException broken_promise
      \<and> FutureResponseActions (snd (WriteLoop_item io (AwaitSingle query p) s)) = FutureResponseActions s)
   \<and> (n < length queries \<and> (\<forall>j<n. write_result io (WriteCalls s + j) = None)
        \<and> write_result io (WriteCalls s + n) = Some forced_unwind \<and> RepliesStates s p = Pending \<longrightarrow>
      fst (WriteLoop_item io (AwaitBulk queries p) s) = Throw forced_unwind
      \<and> RepliesStates (snd (WriteLoop_item io (AwaitBulk queries p) s)) p = HasException broken_promise
      \<and> FutureResponseActions (snd (WriteLoop_item io (AwaitBulk queries p) s)) = FutureResponseActions s)
   \<and> (WriteLoop_pc s = WriteAtWhile \<and> Writes s = item # rest
        \<and> fst (WriteLoop_item io item (s\<lparr>Writes := rest\<rparr>)) = Throw forced_unwind \<longrightarrow>
      WriteLoop_pc (WriteLoop_step io s) = WriteExited forced_unwind)
   \<and> (ReadCalls (ReadLoop_step io s) \<noteq> ReadCalls s \<and> read_result io (ReadCalls s) = Inl forced_unwind \<longrightarrow>
      ReadLoop_pc (ReadLoop_step io s) = ReadExited forced_unwind
      \<and> LogOutput (ReadLoop_step io s) = LogOutput s
      \<and> only_broken s (ReadLoop_step io s))
   \<and> (ReadLoop_pc s = DeliverReadOne i p \<and> read_result io (ReadCalls s) = Inl forced_unwind
        \<and> ReplyStates s p = Pending \<longrightarrow>
      ReplyStates (ReadLoop_step io s) p = HasException broken_promise)
   \<and> (ReadLoop_pc s = DeliverBulkFor i p replies \<and> 0 < i \<and> read_result io (ReadCalls s) = Inl forced_unwind
        \<and> RepliesStates s p = Pending \<longrightarrow>
      RepliesStates (ReadLoop_step io s) p = HasException broken_promise)
   \<and> (WriteLoop_pc s = WriteExited forced_unwind \<longrightarrow> WriteLoop_step io s = s)
   \<and> (ReadLoop_pc s = ReadExited forced_unwind \<longrightarrow> ReadLoop_step io s = s)"
proof (intro conjI impI)
  assume h: "connect_result io (ConnectCalls s) = Some forced_unwind"
  note m = Connect_forced_unwind [OF h]
  show "fst (Connect io s) = Some forced_unwind" by (simp add: m)
  show "errors_logged (snd (Connect io s)) = errors_logged s" by (simp add: m errors_logged_def)
  show "ReplyStates (snd (Connect io s)) = ReplyStates s" by (simp add: m)
  show "RepliesStates (snd (Connect io s)) = RepliesStates s" by (simp add: m)
next
  assume h: "\<exists>k. WriteCalls s \<le> k \<and> k < WriteCalls (snd (WriteLoop_item io item s))
            \<and> write_result io k = Some forced_unwind"
  show "fst (WriteLoop_item io item s) = Throw forced_unwind"
    using Writer_forced_unwind [OF h] by simp
  show "LogOutput (snd (WriteLoop_item io item s)) = LogOutput s"
    using Writer_forced_unwind [OF h] by (simp add: unwound_def)
  show "only_broken s (snd (WriteLoop_item io item s))"
    using Writer_forced_unwind [OF h] by (simp add: unwound_def)
next
  assume h: "write_result io (WriteCalls s) = Some forced_unwind \<and> ReplyStates s p = Pending"
  then have m: "WriteLoop_item io (AwaitSingle query p) s =
    (Throw forced_unwind, Reply_promise_destroy p (s\<lparr>WriteCalls := Suc (WriteCalls s)\<rparr>))"
    by (simp add: AwaitSingle_forced_unwind)
  show "fst (WriteLoop_item io (AwaitSingle query p) s) = Throw forced_unwind" by (simp add: m)
  show "ReplyStates (snd (WriteLoop_item io (AwaitSingle query p) s)) p = HasException broken_promise"
    using h by (simp add: m Reply_promise_destroy_def)
  show "FutureResponseActions (snd (WriteLoop_item io (AwaitSingle query p) s)) = FutureResponseActions s"
    by (simp add: m Reply_promise_destroy_def)
next
  assume h: "n < length queries \<and> (\<forall>j<n. write_result io (WriteCalls s + j) = None)
        \<and> write_result io (WriteCalls s + n) = Some forced_unwind \<and> RepliesStates s p = Pending"
  then have m: "WriteLoop_item io (AwaitBulk queries p) s =
    (Throw forced_unwind,
     Replies_promise_destroy p (s\<lparr>WriteCalls := WriteCalls s + Suc n, Sent := Sent s @ take n queries\<rparr>))"
    by (intro AwaitBulk_forced_unwind) simp_all
  show "fst (WriteLoop_item io (AwaitBulk queries p) s) = Throw forced_unwind" by (simp add: m)
  show "RepliesStates (snd (WriteLoop_item io (AwaitBulk queries p) s)) p = HasException broken_promise"
    using h by (simp add: m Replies_promise_destroy_def)
  show "FutureResponseActions (snd (WriteLoop_item io (AwaitBulk queries p) s)) = FutureResponseActions s"
    by (simp add: m Replies_promise_destroy_def)
next
  assume "WriteLoop_pc s = WriteAtWhile \<and> Writes s = item # rest
        \<and> fst (WriteLoop_item io item (s\<lparr>Writes := rest\<rparr>)) = Throw forced_unwind"
  then show "WriteLoop_pc (WriteLoop_step io s) = WriteExited forced_unwind"
    by (cases "WriteLoop_item io item (s\<lparr>Writes := rest\<rparr>)") (simp add: WriteLoop_step_def)
next
  assume h: "ReadCalls (ReadLoop_step io s) \<noteq> ReadCalls s \<and> read_result io (ReadCalls s) = Inl forced_unwind"
  show "ReadLoop_pc (ReadLoop_step io s) = ReadExited forced_unwind"
    using Reader_forced_unwind [of io s] h by simp
  show "LogOutput (ReadLoop_step io s) = LogOutput s"
    using Reader_forced_unwind [of io s] h by (simp add: unwound_def)
  show "only_broken s (ReadLoop_step io s)"
    using Reader_forced_unwind [of io s] h by (simp add: unwound_def)
next
  assume h: "ReadLoop_pc s = DeliverReadOne i p \<and> read_result io (ReadCalls s) = Inl forced_unwind
        \<and> ReplyStates s p = Pending"
  then have "ReadLoop_step io s =
    (Reply_promise_destroy p (s\<lparr>ReadCalls := Suc (ReadCalls s)\<rparr>))\<lparr>ReadLoop_pc := ReadExited forced_unwind\<rparr>"
    by (intro Deliver_forced_unwind) simp_all
  then show "ReplyStates (ReadLoop_step io s) p = HasException broken_promise"
    using h by (simp add: Reply_promise_destroy_def)
next
  assume h: "ReadLoop_pc s = DeliverBulkFor i p replies \<and> 0 < i \<and> read_result io (ReadCalls s) = Inl forced_unwind
        \<and> RepliesStates s p = Pending"
  then have a: "ReadLoop_pc s = DeliverBulkFor i p replies" and b: "0 < i"
    and c: "read_result io (ReadCalls s) = Inl forced_unwind"
    by simp_all
  have "ReadLoop_step io s =
    (Replies_promise_destroy p (s\<lparr>ReadCalls := Suc (ReadCalls s)\<rparr>))\<lparr>ReadLoop_pc := ReadExited forced_unwind\<rparr>"
    by (rule DeliverBulk_forced_unwind [OF a b c])
  then show "RepliesStates (ReadLoop_step io s) p = HasException broken_promise"
    using h by (simp add: Replies_promise_destroy_def)
next
  assume "WriteLoop_pc s = WriteExited forced_unwind"
  then show "WriteLoop_step io s = s" by (simp add: WriteLoop_step_def)
next
  assume "ReadLoop_pc s = ReadExited forced_unwind"
  then show "ReadLoop_step io s = s" by (simp add: ReadLoop_step_def)
qed

theorem C7_witness:
  "fst (Connect io_unwind (RedisConnection_new ''localhost'' 6379 [])) = Some forced_unwind
   \<and> fst (WriteLoop_item io_unwind (AwaitBulk [[''GET'', ''a''], [''GET'', ''b'']] 2) state5) = Throw forced_unwind
   \<and> LogOutput (snd (WriteLoop_item io_unwind (AwaitBulk [[''GET'', ''a''], [''GET'', ''b'']] 2) state5))
       = LogOutput state5
   \<and> only_broken state5 (snd (WriteLoop_item io_unwind (AwaitBulk [[''GET'', ''a''], [''GET'', ''b'']] 2) state5))
   \<and> ReplyStates (snd (WriteLoop_item io_unwind (AwaitSingle [''GET'', ''k''] 0) state7)) 0
       = HasException broken_promise
   \<and> fst (WriteLoop_item (io_unwind_at 5) (AwaitBulk [[''GET'', ''a''], [''GET'', ''b'']] 2) state5)
       = Throw forced_unwind
   \<and> RepliesStates (snd (WriteLoop_item (io_unwind_at 5) (AwaitBulk [[''GET'', ''a''], [''GET'', ''b'']] 2) state5)) 2
       = HasException broken_promise
   \<and> WriteLoop_pc (WriteLoop_step io_unwind state7) = WriteExited forced_unwind
   \<and> ReadLoop_pc (ReadLoop_step io_unwind state2) = ReadExited forced_unwind
   \<and> LogOutput (ReadLoop_step io_unwind state2) = LogOutput state2
   \<and> only_broken state2 (ReadLoop_step io_unwind state2)
   \<and> ReplyStates (ReadLoop_step io_unwind state_deliver) 0 = HasException broken_promise
   \<and> RepliesStates (ReadLoop_step io_unwind state_bulk) 0 = HasException broken_promise
   \<and> WriteLoop_step io_unwind (WriteLoop_step io_unwind state7) = WriteLoop_step io_unwind state7
   \<and> ReadLoop_step io_unwind (ReadLoop_step io_unwind state2) = ReadLoop_step io_unwind state2"
proof -
  let ?new = "RedisConnection_new ''localhost'' 6379 []"
  let ?bulk = "AwaitBulk [[''GET'', ''a''], [''GET'', ''b'']] 2"
  have c: "connect_result io_unwind (ConnectCalls ?new) = Some forced_unwind"
    by (simp add: io_unwind_def)
  have w5: "WriteCalls state5 = 4" by code_simp
  have w5': "WriteCalls (snd (WriteLoop_item io_unwind ?bulk state5)) = 5" by code_simp
  have k: "\<exists>k. WriteCalls state5 \<le> k \<and> k < WriteCalls (snd (WriteLoop_item io_unwind ?bulk state5))
            \<and> write_result io_unwind k = Some forced_unwind"
  proof (rule exI [of _ 4])
    have "write_result io_unwind 4 = Some forced_unwind" by (simp add: io_unwind_def)
    then show "WriteCalls state5 \<le> 4 \<and> 4 < WriteCalls (snd (WriteLoop_item io_unwind ?bulk state5))
            \<and> write_result io_unwind 4 = Some forced_unwind"
      by (simp add: w5 w5')
  qed
  have pc7: "WriteLoop_pc state7 = WriteAtWhile" by code_simp
  have wr7: "Writes state7 = [AwaitSingle [''GET'', ''k''] 0]" by code_simp
  have p7: "ReplyStates state7 0 = Pending" by code_simp
  have t7: "fst (WriteLoop_item io_unwind (AwaitSingle [''GET'', ''k''] 0) (state7\<lparr>Writes := []\<rparr>)) = Throw forced_unwind"
    by code_simp
  have s7: "WriteLoop_pc state7 = WriteAtWhile \<and> Writes state7 = AwaitSingle [''GET'', ''k''] 0 # []
        \<and> fst (WriteLoop_item io_unwind (AwaitSingle [''GET'', ''k''] 0) (state7\<lparr>Writes := []\<rparr>)) = Throw forced_unwind"
    using pc7 wr7 t7 by simp
  have u7: "write_result io_unwind (WriteCalls state7) = Some forced_unwind \<and> ReplyStates state7 0 = Pending"
    using p7 by (simp add: io_unwind_def)
  have p5: "RepliesStates state5 2 = Pending" by code_simp
  have u5: "(1::nat) < length [[''GET'', ''a''], [''GET'', ''b'']]
        \<and> (\<forall>j<1. write_result (io_unwind_at 5) (WriteCalls state5 + j) = None)
        \<and> write_result (io_unwind_at 5) (WriteCalls state5 + 1) = Some forced_unwind
        \<and> RepliesStates state5 2 = Pending"
    using p5 by (simp add: io_unwind_at_def w5)
  have r2: "ReadCalls state2 = 0" by code_simp
  have r2': "ReadCalls (ReadLoop_step io_unwind state2) = 1" by code_simp
  have rd: "ReadCalls (ReadLoop_step io_unwind state2) \<noteq> ReadCalls state2
      \<and> read_result io_unwind (ReadCalls state2) = Inl forced_unwind"
  proof -
    have "read_result io_unwind 0 = Inl forced_unwind" by (simp add: io_unwind_def)
    then show ?thesis by (simp add: r2 r2')
  qed
  have pcd: "ReadLoop_pc state_deliver = DeliverReadOne 1 0" by code_simp
  have pd: "ReplyStates state_deliver 0 = Pending" by code_simp
  have ud: "ReadLoop_pc state_deliver = DeliverReadOne 1 0
        \<and> read_result io_unwind (ReadCalls state_deliver) = Inl forced_unwind
        \<and> ReplyStates state_deliver 0 = Pending"
    using pcd pd by (simp add: io_unwind_def)
  have pcb: "ReadLoop_pc state_bulk = DeliverBulkFor 2 0 []" by code_simp
  have pb: "RepliesStates state_bulk 0 = Pending" by code_simp
  have ub: "ReadLoop_pc state_bulk = DeliverBulkFor 2 0 [] \<and> (0::nat) < 2
        \<and> read_result io_unwind (ReadCalls state_bulk) = Inl forced_unwind
        \<and> RepliesStates state_bulk 0 = Pending"
    using pcb pb by (simp add: io_unwind_def)
  have a1: "fst (Connect io_unwind ?new) = Some forced_unwind"
    using C7_forced_unwind_propagates [where io = io_unwind and s = ?new] c by blast
  have a2: "fst (WriteLoop_item io_unwind ?bulk state5) = Throw forced_unwind
      \<and> LogOutput (snd (WriteLoop_item io_unwind ?bulk state5)) = LogOutput state5
      \<and> only_broken state5 (snd (WriteLoop_item io_unwind ?bulk state5))"
    using C7_forced_unwind_propagates [where io = io_unwind and s = state5 and item = ?bulk] k by blast
  have a3: "ReplyStates (snd (WriteLoop_item io_unwind (AwaitSingle [''GET'', ''k''] 0) state7)) 0
       = HasException broken_promise"
    using C7_forced_unwind_propagates [where io = io_unwind and s = state7 and p = 0
        and query = "[''GET'', ''k'']"] u7 by blast
  have a4: "fst (WriteLoop_item (io_unwind_at 5) ?bulk state5) = Throw forced_unwind
      \<and> RepliesStates (snd (WriteLoop_item (io_unwind_at 5) ?bulk state5)) 2 = HasException broken_promise"
    using C7_forced_unwind_propagates [where io = "io_unwind_at 5" and s = state5 and p = 2 and n = 1
        and queries = "[[''GET'', ''a''], [''GET'', ''b'']]"] u5 by blast
  have a5: "WriteLoop_pc (WriteLoop_step io_unwind state7) = WriteExited forced_unwind"
    using C7_forced_unwind_propagates [where io = io_unwind and s = state7
        and item = "AwaitSingle [''GET'', ''k''] 0" and rest = "[]"] s7 by blast
  have a6: "ReadLoop_pc (ReadLoop_step io_unwind state2) = ReadExited forced_unwind
      \<and> LogOutput (ReadLoop_step io_unwind state2) = LogOutput state2
      \<and> only_broken state2 (ReadLoop_step io_unwind state2)"
    using C7_forced_unwind_propagates [where io = io_unwind and s = state2] rd by blast
  have a7: "ReplyStates (ReadLoop_step io_unwind state_deliver) 0 = HasException broken_promise"
    using C7_forced_unwind_propagates [where io = io_unwind and s = state_deliver and i = 1 and p = 0] ud
    by blast
  have a8: "RepliesStates (ReadLoop_step io_unwind state_bulk) 0 = HasException broken_promise"
    using C7_forced_unwind_propagates [where io = io_unwind and s = state_bulk and i = 2 and p = 0
        and replies = "[]"] ub by blast
  have a9: "WriteLoop_step io_unwind (WriteLoop_step io_unwind state7) = WriteLoop_step io_unwind state7"
    using C7_forced_unwind_propagates [where io = io_unwind and s = "WriteLoop_step io_unwind state7"] a5
    by blast
  have a10: "ReadLoop_step io_unwind (ReadLoop_step io_unwind state2) = ReadLoop_step io_unwind state2"
    using C7_forced_unwind_propagates [where io = io_unwind and s = "ReadLoop_step io_unwind state2"] a6
    by blast
  show ?thesis using a1 a2 a3 a4 a5 a6 a7 a8 a9 a10 by simp
qed

subsection \<open>C10: an awaited bulk with no queries\<close>

lemma AwaitBulk_empty:
  "WriteLoop_item io (AwaitBulk [] p) s =
    (Next, s\<lparr>RepliesPromises := RepliesPromises s @ [p],
        FutureResponseActions := FutureResponseActions s @ [\<lparr>Amount = 0, Action = DeliverBulk\<rparr>],
        QueuedReads := True\<rparr>)"
  using AwaitBulk_success [of "[]" io s p] by simp

lemma DeliverBulk_empty:
  assumes "ReadLoop_pc s = ReadAtWhile" "FutureResponseActions s = \<lparr>Amount = 0, Action = DeliverBulk\<rparr> # rest"
    "RepliesPromises s = p # ps" "RepliesStates s p = Pending"
  shows "ReadLoop_step io (ReadLoop_step io s) =
    s\<lparr>FutureResponseActions := rest, RepliesPromises := ps,
      RepliesStates := (RepliesStates s)(p := HasValue []), ReadLoop_pc := ReadAtWhile\<rparr>"
proof -
  have 1: "ReadLoop_step io s = s\<lparr>FutureResponseActions := rest, RepliesPromises := ps,
      ReadLoop_pc := DeliverBulkFor 0 p []\<rparr>"
    using assms by (simp add: ReadLoop_step_def)
  show ?thesis
    unfolding 1 using assms(4)
    by (simp add: ReadLoop_step_def ReadLoop_DeliverBulk_def Replies_set_value_def)
qed

lemma idle_run10:
  assumes "idle s"
  shows "run io run10 s =
    s\<lparr>PromisesMade := Suc (PromisesMade s),
      RepliesStates := (RepliesStates s)(PromisesMade s := HasValue []),
      QueuedWrites := True, QueuedReads := True,
      WriteLoop_pc := WriteAtWhile, ReadLoop_pc := ReadAtWhile\<rparr>"
proof -
  let ?p = "PromisesMade s"
  let ?s1 = "s\<lparr>PromisesMade := Suc ?p, RepliesStates := (RepliesStates s)(?p := Pending),
        Writes := [AwaitBulk [] ?p], QueuedWrites := True\<rparr>"
  have 1: "fire io (CallGetResultsOfQueries []) s = ?s1"
    using assms by (simp add: GetResultsOfQueries_shape idle_def AwaitBulk_def)
  let ?s2 = "?s1\<lparr>WriteLoop_pc := WriteAtWhile\<rparr>"
  have 2: "fire io RunWriteLoop ?s1 = ?s2"
    using assms by (simp add: idle_def WriteLoop_step_def)
  let ?s3 = "?s2\<lparr>Writes := [], RepliesPromises := [?p],
      FutureResponseActions := [\<lparr>Amount = 0, Action = DeliverBulk\<rparr>], QueuedReads := True\<rparr>"
  have 3: "fire io RunWriteLoop ?s2 = ?s3"
    using assms by (simp add: idle_def WriteLoop_step_def AwaitBulk_empty)
  let ?s4 = "?s3\<lparr>ReadLoop_pc := ReadAtWhile\<rparr>"
  have 4: "fire io RunReadLoop ?s3 = ?s4"
    using assms by (simp add: idle_def ReadLoop_step_def)
  have 5: "ReadLoop_step io (ReadLoop_step io ?s4) =
      ?s4\<lparr>FutureResponseActions := [], RepliesPromises := [],
        RepliesStates := (RepliesStates ?s4)(?p := HasValue []), ReadLoop_pc := ReadAtWhile\<rparr>"
    by (rule DeliverBulk_empty) simp_all
  have sp: "ReadLoopCoroutine \<in> set (Spawned ?s4)" "ReadLoopCoroutine \<in> set (Spawned (ReadLoop_step io ?s4))"
    using assms lifecycle_reader [of io ?s4] by (simp_all add: idle_def)
  have 6: "fire io RunReadLoop (fire io RunReadLoop ?s4) = ReadLoop_step io (ReadLoop_step io ?s4)"
    using sp by simp
  have "run io run10 s = fire io RunReadLoop (fire io RunReadLoop ?s4)"
    unfolding run10_def run.simps 1 2 3 4 ..
  also have "\<dots> = ?s4\<lparr>FutureResponseActions := [], RepliesPromises := [],
        RepliesStates := (RepliesStates ?s4)(?p := HasValue []), ReadLoop_pc := ReadAtWhile\<rparr>"
    unfolding 6 5 ..
  finally show ?thesis using assms by (simp add: idle_def)
qed

text \<open>
  Claim C10. (1) The Writer handles an item of \<open>GetResultsOfQueries\<close> with no queries
  without calling \<open>WriteOne\<close>: it appends the promise to \<open>RepliesPromises\<close> and a
  DeliverBulk entry of amount zero to \<open>FutureResponseActions\<close>, and sets
  \<open>QueuedReads\<close>. (2) The Reader, finding that entry and the pending promise in front,
  sets the empty list of replies as the promise's value without calling \<open>ReadOne\<close>,
  and the caller's \<open>future.get()\<close> returns it. (3) On a connection whose loops are idle,
  the call followed by two moves of the Writer and three of the Reader ends with the
  caller receiving the empty list, whatever the transport does; nothing is written,
  read or logged as an error.
\<close>

theorem C10_empty_bulk_completes:
  "(fst (WriteLoop_item io (AwaitBulk [] p) s) = Next
    \<and> WriteCalls (snd (WriteLoop_item io (AwaitBulk [] p) s)) = WriteCalls s
    \<and> Sent (snd (WriteLoop_item io (AwaitBulk [] p) s)) = Sent s
    \<and> FutureResponseActions (snd (WriteLoop_item io (AwaitBulk [] p) s))
         = FutureResponseActions s @ [\<lparr>Amount = 0, Action = DeliverBulk\<rparr>]
    \<and> RepliesPromises (snd (WriteLoop_item io (AwaitBulk [] p) s)) = RepliesPromises s @ [p]
    \<and> QueuedReads (snd (WriteLoop_item io (AwaitBulk [] p) s)))
   \<and> (ReadLoop_pc s = ReadAtWhile \<and> FutureResponseActions s = \<lparr>Amount = 0, Action = DeliverBulk\<rparr> # rest
        \<and> RepliesPromises s = p # ps \<and> RepliesStates s p = Pending \<longrightarrow>
      future_get (RepliesStates (ReadLoop_step io (ReadLoop_step io s)) p) = Some (Inr [])
      \<and> ReadCalls (ReadLoop_step io (ReadLoop_step io s)) = ReadCalls s
      \<and> ReadLoop_pc (ReadLoop_step io (ReadLoop_step io s)) = ReadAtWhile
      \<and> FutureResponseActions (ReadLoop_step io (ReadLoop_step io s)) = rest)
   \<and> (idle s \<longrightarrow>
      future_get (RepliesStates (run io run10 s) (fst (GetResultsOfQueries [] s))) = Some (Inr [])
      \<and> WriteCalls (run io run10 s) = WriteCalls s
      \<and> ReadCalls (run io run10 s) = ReadCalls s
      \<and> Sent (run io run10 s) = Sent s
      \<and> LogOutput (run io run10 s) = LogOutput s
      \<and> FutureResponseActions (run io run10 s) = [])"
proof (intro conjI impI)
  assume h: "ReadLoop_pc s = ReadAtWhile \<and> FutureResponseActions s = \<lparr>Amount = 0, Action = DeliverBulk\<rparr> # rest
        \<and> RepliesPromises s = p # ps \<and> RepliesStates s p = Pending"
  then have m: "ReadLoop_step io (ReadLoop_step io s) =
    s\<lparr>FutureResponseActions := rest, RepliesPromises := ps,
      RepliesStates := (RepliesStates s)(p := HasValue []), ReadLoop_pc := ReadAtWhile\<rparr>"
    by (intro DeliverBulk_empty) simp_all
  show "future_get (RepliesStates (ReadLoop_step io (ReadLoop_step io s)) p) = Some (Inr [])"
    by (simp add: m future_get_def)
  show "ReadCalls (ReadLoop_step io (ReadLoop_step io s)) = ReadCalls s" by (simp add: m)
  show "ReadLoop_pc (ReadLoop_step io (ReadLoop_step io s)) = ReadAtWhile" by (simp add: m)
  show "FutureResponseActions (ReadLoop_step io (ReadLoop_step io s)) = rest" by (simp add: m)
next
  assume i: "idle s"
  note m = idle_run10 [OF i, of io]
  show "future_get (RepliesStates (run io run10 s) (fst (GetResultsOfQueries [] s))) = Some (Inr [])"
    by (simp add: m future_get_def GetResultsOfQueries_shape)
  show "WriteCalls (run io run10 s) = WriteCalls s" by (simp add: m)
  show "ReadCalls (run io run10 s) = ReadCalls s" by (simp add: m)
  show "Sent (run io run10 s) = Sent s" by (simp add: m)
  show "LogOutput (run io run10 s) = LogOutput s" by (simp add: m)
  show "FutureResponseActions (run io run10 s) = []" using i by (simp add: m idle_def)
qed (simp_all add: AwaitBulk_empty)

theorem C10_witness:
  "future_get (RepliesStates (run io_refused run10 (Start (RedisConnection_new ''localhost'' 6379 []))) 0)
      = Some (Inr [])
   \<and> Sent (run io_refused run10 (Start (RedisConnection_new ''localhost'' 6379 []))) = []
   \<and> future_get (RepliesStates (ReadLoop_step io_refused (ReadLoop_step io_refused state10)) 0) = Some (Inr [])
   \<and> ReadCalls (ReadLoop_step io_refused (ReadLoop_step io_refused state10)) = 0"
proof -
  let ?s = "Start (RedisConnection_new ''localhost'' 6379 [])"
  have i: "idle ?s" by code_simp
  have p: "fst (GetResultsOfQueries [] ?s) = 0" by code_simp
  have st: "Sent ?s = []" by code_simp
  have r: "ReadLoop_pc state10 = ReadAtWhile
      \<and> FutureResponseActions state10 = \<lparr>Amount = 0, Action = DeliverBulk\<rparr> # []
      \<and> RepliesPromises state10 = 0 # [] \<and> RepliesStates state10 0 = Pending"
    by code_simp
  have rc: "ReadCalls state10 = 0" by code_simp
  have a: "future_get (RepliesStates (run io_refused run10 ?s) (fst (GetResultsOfQueries [] ?s))) = Some (Inr [])
      \<and> Sent (run io_refused run10 ?s) = Sent ?s"
    using C10_empty_bulk_completes [of io_refused _ ?s] i by blast
  have b: "future_get (RepliesStates (ReadLoop_step io_refused (ReadLoop_step io_refused state10)) 0) = Some (Inr [])
      \<and> ReadCalls (ReadLoop_step io_refused (ReadLoop_step io_refused state10)) = ReadCalls state10"
    using C10_empty_bulk_completes [of io_refused 0 state10 "[]" "[]"] r by blast
  show ?thesis using a b p st rc by simp
qed

subsection \<open>The Reader never reads from an empty queue\<close>

lemma entries_simps [simp]:
  "entries a [] = 0"
  "entries a (x # xs) = (if Action x = a then 1 else 0) + entries a xs"
  "entries a (xs @ ys) = entries a xs + entries a ys"
  by (simp_all add: entries_def)

lemma entries_record_action: "a \<noteq> DeliverBulk \<Longrightarrow> entries DeliverBulk (record_action n a fas) = entries DeliverBulk fas"
proof (cases fas rule: rev_cases)
  case Nil
  assume "a \<noteq> DeliverBulk"
  then show ?thesis using Nil by (simp add: record_action_def)
next
  case (snoc xs x)
  assume "a \<noteq> DeliverBulk"
  then show ?thesis using snoc by (simp add: record_action_def)
qed

lemma keeps2_b1: "keeps2 t (snd (WriteLoop_FireAndForgetQuery io item t))"
  by (auto simp: destroy_defs keeps2_def WriteLoop_FireAndForgetQuery_def entries_record_action Log_def
      split: option.splits exn.splits prod.splits dest!: WriteOne_result(2))

lemma keeps2_b2: "keeps2 t (snd (WriteLoop_FireAndForgetQueries io item t))"
  by (auto simp: destroy_defs keeps2_def WriteLoop_FireAndForgetQueries_def entries_record_action Log_def
      split: option.splits exn.splits prod.splits dest!: WriteAll_result)

lemma keeps2_b3: "keeps2 t (snd (WriteLoop_GetResultOfQuery io item t))"
  by (auto simp: destroy_defs keeps2_def WriteLoop_GetResultOfQuery_def entries_record_action Reply_set_exception_def
      split: option.splits exn.splits prod.splits sum.splits if_splits dest!: WriteOne_result(2))

lemma keeps2_b4: "keeps2 t (snd (WriteLoop_GetResultsOfQueries io item t))"
  by (auto simp: destroy_defs keeps2_def WriteLoop_GetResultsOfQueries_def Replies_set_exception_def
      split: option.splits exn.splits prod.splits sum.splits if_splits dest!: WriteAll_result)

lemma keeps2_item: "keeps2 s (snd (WriteLoop_item io item s))"
  by (rule WriteLoop_item_rel) (auto simp: keeps2_b1 keeps2_b2 keeps2_b3 keeps2_b4, auto simp: keeps2_def)

lemma inv2_writer: "inv2 s \<Longrightarrow> inv2 (WriteLoop_step io s)"
proof (rule WriteLoop_step_cases [where P = inv2])
  fix item rest f t
  assume i: "inv2 s" and "Writes s = item # rest"
    and e: "WriteLoop_item io item (s\<lparr>Writes := rest\<rparr>) = (f, t)"
  have "inv2 t"
    using i e keeps1_item [of "s\<lparr>Writes := rest\<rparr>" io item] keeps2_item [of "s\<lparr>Writes := rest\<rparr>" io item]
    by (auto simp: inv2_def keeps1_def keeps2_def)
  then show "inv2 t \<and> (\<forall>ex. inv2 (t\<lparr>WriteLoop_pc := WriteExited ex\<rparr>))"
    by (simp add: inv2_def)
qed (simp_all add: inv2_def)

lemma inv2_reader: "inv2 s \<Longrightarrow> inv2 (ReadLoop_step io s)"
  by (cases "ReadLoop_pc s")
     (auto simp: inv2_def reader_defs
       split: list.splits ResponseAction.splits sum.splits exn.splits if_splits)

lemma inv2_fire: "inv2 s \<Longrightarrow> inv2 (fire io ev s)"
  by (cases ev) (auto simp: inv2_writer inv2_reader,
      auto simp: inv2_def api_defs split: option.splits exn.splits prod.splits)

text \<open>
  The Reader never calls \<open>front()\<close> on an empty queue: the state \<open>ReadUndefined\<close> of
  the model is not reachable.
\<close>

lemma front_never_on_empty_queue:
  "ReadLoop_pc (run io evs (RedisConnection_new host port path)) \<noteq> ReadUndefined"
proof -
  have "inv2 (run io evs (RedisConnection_new host port path))"
    by (rule run_invariant) (simp_all add: inv2_fire, simp add: inv2_def RedisConnection_new_def)
  then show ?thesis by (auto simp: inv2_def)
qed

end
